theory Spec2Isabelle
  imports Complex_Main
begin

section \<open>JavaScript values\<close>

text \<open>
  A Number is a finite value, NaN or an infinity. The finite values are kept as
  rationals: every double is one, and the two operations the source applies to a
  Number (comparison with 1, \<open>Number.isInteger\<close>) are exact on them.
\<close>

datatype jsnum = Finite rat | NaN | PosInfinity | NegInfinity

text \<open>
  The values that reach the queue: the constructor's arguments, what a task
  fulfils with and, with the objects added below, what it throws. \<open>JError m\<close> is
  an instance of \<open>Error\<close> with message \<open>m\<close>.
\<close>

datatype jsval = JUndefined | JNull | JBool bool | JNum jsnum | JStr string | JError string

fun isError :: "jsval \<Rightarrow> bool" where
  "isError (JError m) = True"
| "isError v = False"

definition Error_toString :: "string \<Rightarrow> string" where
  "Error_toString m = (if m = [] then ''Error'' else ''Error: '' @ m)"

text \<open>
  \<open>String(v)\<close>. How the runtime prints a Number is not part of this repository: it
  is the parameter \<open>n2s\<close>.
\<close>

fun js_String :: "(jsnum \<Rightarrow> string) \<Rightarrow> jsval \<Rightarrow> string" where
  "js_String n2s JUndefined = ''undefined''"
| "js_String n2s JNull = ''null''"
| "js_String n2s (JBool b) = (if b then ''true'' else ''false'')"
| "js_String n2s (JNum x) = n2s x"
| "js_String n2s (JStr s) = s"
| "js_String n2s (JError m) = Error_toString m"

text \<open>
  \<open>ToNumber(v)\<close>, which \<open>v < 1\<close> applies to its left operand. How the runtime reads a
  string as a Number is the parameter \<open>s2n\<close>.
\<close>

fun ToNumber :: "(string \<Rightarrow> jsnum) \<Rightarrow> jsval \<Rightarrow> jsnum" where
  "ToNumber s2n JUndefined = NaN"
| "ToNumber s2n JNull = Finite 0"
| "ToNumber s2n (JBool b) = Finite (if b then 1 else 0)"
| "ToNumber s2n (JNum x) = x"
| "ToNumber s2n (JStr s) = s2n s"
| "ToNumber s2n (JError m) = s2n (Error_toString m)"

text \<open>\<open>x < y\<close> on Numbers: false as soon as one side is NaN.\<close>

fun less_num :: "jsnum \<Rightarrow> jsnum \<Rightarrow> bool" where
  "less_num NaN y = False"
| "less_num x NaN = False"
| "less_num (Finite a) (Finite b) = (a < b)"
| "less_num (Finite a) PosInfinity = True"
| "less_num (Finite a) NegInfinity = False"
| "less_num PosInfinity y = False"
| "less_num NegInfinity NegInfinity = False"
| "less_num NegInfinity y = True"

fun Number_isInteger :: "jsval \<Rightarrow> bool" where
  "Number_isInteger (JNum (Finite x)) = (of_int \<lfloor>x\<rfloor> = x)"
| "Number_isInteger v = False"

fun integer_value :: "jsval \<Rightarrow> int" where
  "integer_value (JNum (Finite x)) = \<lfloor>x\<rfloor>"
| "integer_value v = 0"

subsection \<open>Thrown values\<close>

text \<open>
  What a task throws or rejects with is any value: one of the above, or an object
  that is no \<open>Error\<close>. Of such an object the source only takes \<open>String(...)\<close>, which
  returns a string (\<open>Object (Some s)\<close>) or throws a \<open>TypeError\<close> (\<open>Object None\<close>: an
  object without a usable \<open>toString\<close>, such as \<open>Object.create(null)\<close>). An object
  whose own \<open>toString\<close> throws a value of its own choice is not among them.
\<close>

datatype thrown = Value jsval | Object "string option"

text \<open>The \<open>TypeError\<close> of \<open>String\<close>, an instance of \<open>Error\<close>, with the message Node gives it.\<close>

definition String_TypeError :: jsval where
  "String_TypeError = JError ''Cannot convert object to primitive value''"

text \<open>
  \<open>theError instanceof Error ? theError : new Error(String(theError))\<close>, first on
  the values whose conversion cannot throw, then on every thrown value, where
  \<open>Inl\<close> is the exception of \<open>String\<close>.
\<close>

definition toError :: "(jsnum \<Rightarrow> string) \<Rightarrow> jsval \<Rightarrow> jsval" where
  "toError n2s theError = (if isError theError then theError else JError (js_String n2s theError))"

fun errorObj :: "(jsnum \<Rightarrow> string) \<Rightarrow> thrown \<Rightarrow> jsval + jsval" where
  "errorObj n2s (Value v) = Inr (toError n2s v)"
| "errorObj n2s (Object (Some s)) = Inr (JError s)"
| "errorObj n2s (Object None) = Inl String_TypeError"

section \<open>Tasks and result records\<close>

text \<open>
  A task is a zero-argument function returning a promise. What the queue sees of
  it is how the promise of each invocation settles: \<open>t k\<close> is the settlement of
  invocation number \<open>k\<close> (from 0) of task \<open>t\<close>. A task that throws synchronously, or
  an array element that is no function, is a rejection. The tasks of one array are
  independent of each other and do not call the queue themselves. A promise that
  never settles is a settlement that has not happened yet: it adds no state.
\<close>

datatype settle = Fulfils jsval | Rejects thrown

type_synonym task = "nat \<Rightarrow> settle"

text \<open>\<open>{status: 'success', value}\<close> and \<open>{status: 'captured', error}\<close>.\<close>

datatype result = Success jsval | Captured jsval

text \<open>How the promise of \<open>runTaskWithRetry\<close> settles: a returned record or a thrown value.\<close>

datatype completion = Returned result | Thrown jsval

text \<open>
  Where an activation of \<open>runTaskWithRetry\<close> stands, with its locals \<open>attempt\<close> and
  \<open>theError\<close>:
  \<^item> \<open>OnTask attempt theError s\<close>: at \<open>await taskFunction()\<close>, the promise settling as \<open>s\<close>;
  \<^item> \<open>OnBackoff attempt theError waitTime cleared\<close>: at the backoff promise, whose
    timer of \<open>waitTime\<close> ms has been cleared by the abort listener or not;
  \<^item> \<open>Finished c\<close>: returned or thrown; the caller's \<open>await\<close> has not resumed yet.
\<close>

datatype retry =
    OnTask nat thrown settle
  | OnBackoff nat thrown nat bool
  | Finished completion

section \<open>The queue\<close>

text \<open>
  The fields of the class, then what the runtime holds for a run: the promise
  \<open>run\<close> returned (\<open>resolveQueue\<close> is its resolve function), the suspended
  activations of \<open>_processNext\<close> (each with its local \<open>currentIndex\<close> and the
  \<open>runTaskWithRetry\<close> call it awaits) and how often each task function has been
  invoked. \<open>abortController\<close> is null (\<open>None\<close>) or a controller whose signal has
  the given \<open>aborted\<close> flag. A null slot of \<open>results\<close> is \<open>None\<close>.

  The retry budget is an integer, as the claims about it take it. The task array
  is not changed by the caller during a run.
\<close>

record AsyncQueue =
  maxAtSameTime :: int
  retryAttempts :: int
  abortController :: "bool option"
  tasks :: "task list"
  results :: "result option list"
  runningCount :: int
  nextTaskIndex :: nat
  finishedCount :: nat
  promise :: "result option list option"
  chains :: "(nat \<times> retry) list"
  calls :: "nat list"

datatype tasks_arg = NotArray jsval | Array "task list"

datatype event = Resume nat | CancelAll

subsection \<open>runTaskWithRetry\<close>

text \<open>\<open>signal?.aborted\<close>\<close>

definition aborted :: "bool option \<Rightarrow> bool" where
  "aborted signal = (signal = Some True)"

text \<open>
  One pass from the loop condition to the next suspension: the test
  \<open>attempt <= howManyRetries\<close>, the check of the signal, the call of the task; after
  the loop, the captured record, or the exception of \<open>String\<close>, which no \<open>try\<close>
  encloses there. \<open>n\<close> counts the invocations of \<open>taskFunction\<close> so far.
\<close>

definition next_attempt ::
  "(jsnum \<Rightarrow> string) \<Rightarrow> task \<Rightarrow> nat \<Rightarrow> int \<Rightarrow> bool option \<Rightarrow> nat \<Rightarrow> thrown \<Rightarrow> retry \<times> nat" where
  "next_attempt n2s taskFunction n howManyRetries signal attempt theError =
     (if int attempt \<le> howManyRetries then
        if aborted signal then (Finished (Thrown (JError ''Task cancelled'')), n)
        else (OnTask attempt theError (taskFunction n), Suc n)
      else (case errorObj n2s theError of
              Inr e \<Rightarrow> (Finished (Returned (Captured e)), n)
            | Inl x \<Rightarrow> (Finished (Thrown x), n)))"

text \<open>The call: \<open>theError = null\<close>, \<open>attempt = 0\<close>, up to the first suspension.\<close>

definition runTaskWithRetry ::
  "(jsnum \<Rightarrow> string) \<Rightarrow> task \<Rightarrow> nat \<Rightarrow> int \<Rightarrow> bool option \<Rightarrow> retry \<times> nat" where
  "runTaskWithRetry n2s taskFunction n howManyRetries signal =
     next_attempt n2s taskFunction n howManyRetries signal 0 (Value JNull)"

text \<open>
  The activation resumes. After the task's promise: the success record, or the
  \<open>catch\<close> block, which starts the backoff wait or goes on with \<open>attempt + 1\<close>. After
  the backoff promise: on with \<open>attempt + 1\<close>. The backoff promise resolves only
  through its timer, so an activation whose timer has been cleared does not
  resume (\<open>None\<close>).
\<close>

fun resume_retry ::
  "(jsnum \<Rightarrow> string) \<Rightarrow> task \<Rightarrow> nat \<Rightarrow> int \<Rightarrow> bool option \<Rightarrow> retry \<Rightarrow> (retry \<times> nat) option" where
  "resume_retry n2s taskFunction n howManyRetries signal (OnTask attempt theError (Fulfils v)) =
     Some (Finished (Returned (Success v)), n)"
| "resume_retry n2s taskFunction n howManyRetries signal (OnTask attempt theError (Rejects err)) =
     (if int attempt < howManyRetries \<and> \<not> aborted signal
      then Some (OnBackoff attempt err (100 * (attempt + 1)) False, n)
      else Some (next_attempt n2s taskFunction n howManyRetries signal (attempt + 1) err))"
| "resume_retry n2s taskFunction n howManyRetries signal (OnBackoff attempt theError waitTime cleared) =
     (if cleared then None
      else Some (next_attempt n2s taskFunction n howManyRetries signal (attempt + 1) theError))"
| "resume_retry n2s taskFunction n howManyRetries signal (Finished c) = None"

text \<open>The abort listener of a backoff wait: \<open>clearTimeout(timer)\<close>.\<close>

fun abort_listener :: "retry \<Rightarrow> retry" where
  "abort_listener (OnBackoff attempt theError waitTime cleared) = OnBackoff attempt theError waitTime True"
| "abort_listener r = r"

subsection \<open>The class\<close>

definition AsyncQueue_constructor ::
  "(string \<Rightarrow> jsnum) \<Rightarrow> jsval \<Rightarrow> int option \<Rightarrow> jsval + AsyncQueue" where
  "AsyncQueue_constructor s2n m r =
     (if less_num (ToNumber s2n m) (Finite 1) \<or> \<not> Number_isInteger m
      then Inl (JError ''Concurrency must be a positive whole number'')
      else Inr \<lparr> maxAtSameTime = integer_value m,
                 retryAttempts = (case r of None \<Rightarrow> 3 | Some k \<Rightarrow> k),
                 abortController = None,
                 tasks = [], results = [], runningCount = 0, nextTaskIndex = 0,
                 finishedCount = 0, promise = None, chains = [], calls = [] \<rparr>)"

text \<open>A promise settles once: a second call of its resolve function does nothing.\<close>

definition resolveQueue :: "result option list \<Rightarrow> AsyncQueue \<Rightarrow> AsyncQueue" where
  "resolveQueue v q = (case promise q of None \<Rightarrow> q\<lparr>promise := Some v\<rparr> | Some u \<Rightarrow> q)"

definition cancelErr :: jsval where
  "cancelErr = JError ''Task cancelled via cancelAll()''"

definition checkCompletion :: "AsyncQueue \<Rightarrow> AsyncQueue" where
  "checkCompletion q =
     (if runningCount q = 0 then
        let q1 = (if aborted (abortController q)
                  then q\<lparr>results := map (\<lambda>res. case res of None \<Rightarrow> Some (Captured cancelErr)
                                                   | Some x \<Rightarrow> Some x) (results q)\<rparr>
                  else q)
        in resolveQueue (results q1) q1
      else q)"

text \<open>
  \<open>_processNext\<close> up to its \<open>await\<close>: the completion check, or the claim of the next
  index and the call of \<open>runTaskWithRetry\<close>, which runs to its first suspension.
  Both read \<open>this.abortController.signal\<close>; they only run inside a run, where the
  controller is set.
\<close>

definition processNext :: "(jsnum \<Rightarrow> string) \<Rightarrow> AsyncQueue \<Rightarrow> AsyncQueue" where
  "processNext n2s q =
     (if nextTaskIndex q \<ge> length (tasks q) \<or> aborted (abortController q)
      then checkCompletion q
      else
        let currentIndex = nextTaskIndex q;
            taskFn = tasks q ! currentIndex;
            (r, n) = runTaskWithRetry n2s taskFn (calls q ! currentIndex)
                       (retryAttempts q) (abortController q)
        in q\<lparr> nextTaskIndex := Suc currentIndex,
               runningCount := runningCount q + 1,
               calls := (calls q)[currentIndex := n],
               chains := chains q @ [(currentIndex, r)] \<rparr>)"

text \<open>
  \<open>_processNext\<close> after its \<open>await\<close>: the result record is written (the \<open>catch\<close>
  block turns a thrown value into a captured record; what \<open>runTaskWithRetry\<close>
  throws is a value, so \<open>String\<close> cannot throw here), then the \<open>finally\<close> block.
  The index written is a claimed one, so it lies inside the array (\<open>inv_chains\<close>
  below); a list update outside the list would do nothing, where JavaScript
  extends the array.
\<close>

definition record_of :: "(jsnum \<Rightarrow> string) \<Rightarrow> completion \<Rightarrow> result" where
  "record_of n2s c = (case c of Returned result \<Rightarrow> result
                             | Thrown err \<Rightarrow> Captured (toError n2s err))"

definition settled :: "(jsnum \<Rightarrow> string) \<Rightarrow> nat \<Rightarrow> completion \<Rightarrow> AsyncQueue \<Rightarrow> AsyncQueue" where
  "settled n2s currentIndex c q =
     processNext n2s
       (q\<lparr> results := (results q)[currentIndex := Some (record_of n2s c)],
           runningCount := runningCount q - 1,
           finishedCount := finishedCount q + 1 \<rparr>)"

text \<open>
  \<open>abort()\<close> sets the flag and runs the listeners of the backoff waits in
  progress; on a signal already aborted it does nothing.
\<close>

definition cancelAll :: "AsyncQueue \<Rightarrow> AsyncQueue" where
  "cancelAll q =
     (case abortController q of
        None \<Rightarrow> q
      | Some a \<Rightarrow> if a then q
                  else q\<lparr> abortController := Some True,
                         chains := map (\<lambda>(i, r). (i, abort_listener r)) (chains q) \<rparr>)"

text \<open>
  \<open>run\<close> is called on an object none of whose earlier activations is still
  suspended (the source leaves a second \<open>run\<close> during a run undefined): the state of
  the runtime starts empty, with a new pending promise and task functions not yet
  invoked.
\<close>

definition run :: "(jsnum \<Rightarrow> string) \<Rightarrow> AsyncQueue \<Rightarrow> tasks_arg \<Rightarrow> jsval + AsyncQueue" where
  "run n2s q arg =
     (case arg of
        NotArray v \<Rightarrow> Inl (JError ''Tasks must be an array'')
      | Array ts \<Rightarrow>
          let q1 = q\<lparr> tasks := ts,
                      results := replicate (length ts) None,
                      abortController := Some False,
                      nextTaskIndex := 0,
                      runningCount := 0,
                      finishedCount := 0,
                      promise := None,
                      chains := [],
                      calls := replicate (length ts) 0 \<rparr>
          in if length ts = 0 then Inr (resolveQueue [] q1)
             else
               let initialBatch = nat (min (maxAtSameTime q1) (int (length ts)))
               in Inr ((processNext n2s ^^ initialBatch) q1))"

subsection \<open>The event loop\<close>

text \<open>
  Between two suspensions the code runs without interruption. A run is therefore
  a sequence of events: activation number \<open>c\<close> of \<open>chains\<close> resumes, or the caller
  calls \<open>cancelAll\<close>. In which order the tasks settle and the timers fire is the
  order of the events. An event that cannot happen gives \<open>None\<close>. A timer that
  fires resolves its promise and the activation resumes in the same turn, before
  any other code runs.
\<close>

definition resume :: "(jsnum \<Rightarrow> string) \<Rightarrow> nat \<Rightarrow> AsyncQueue \<Rightarrow> AsyncQueue option" where
  "resume n2s c q =
     (if c < length (chains q) then
        let (currentIndex, r) = chains q ! c in
        case r of
          Finished cmpl \<Rightarrow>
            Some (settled n2s currentIndex cmpl
                    (q\<lparr>chains := take c (chains q) @ drop (Suc c) (chains q)\<rparr>))
        | _ \<Rightarrow>
            (case resume_retry n2s (tasks q ! currentIndex) (calls q ! currentIndex)
                    (retryAttempts q) (abortController q) r of
               None \<Rightarrow> None
             | Some (r', n) \<Rightarrow>
                 Some (q\<lparr> chains := (chains q)[c := (currentIndex, r')],
                          calls := (calls q)[currentIndex := n] \<rparr>))
      else None)"

fun step :: "(jsnum \<Rightarrow> string) \<Rightarrow> event \<Rightarrow> AsyncQueue \<Rightarrow> AsyncQueue option" where
  "step n2s (Resume c) q = resume n2s c q"
| "step n2s CancelAll q = Some (cancelAll q)"

fun exec :: "(jsnum \<Rightarrow> string) \<Rightarrow> event list \<Rightarrow> AsyncQueue \<Rightarrow> AsyncQueue option" where
  "exec n2s [] q = Some q"
| "exec n2s (e # es) q = (case step n2s e q of None \<Rightarrow> None | Some q' \<Rightarrow> exec n2s es q')"

section \<open>What holds in every state of a run\<close>

text \<open>Invocations \<open>0, \<dots>, k - 1\<close> of the task are all rejected.\<close>

fun rejects_upto :: "task \<Rightarrow> nat \<Rightarrow> bool" where
  "rejects_upto t 0 = True"
| "rejects_upto t (Suc k) = (rejects_upto t k \<and> (case t k of Rejects e \<Rightarrow> True | Fulfils v \<Rightarrow> False))"

text \<open>
  The error captured for a last failure \<open>e\<close>: \<open>e\<close> as an \<open>Error\<close>, or the \<open>TypeError\<close>
  of \<open>String\<close>, which \<open>_processNext\<close> catches.
\<close>

definition captured_error :: "(jsnum \<Rightarrow> string) \<Rightarrow> thrown \<Rightarrow> jsval" where
  "captured_error n2s e = (case errorObj n2s e of Inr x \<Rightarrow> x | Inl x \<Rightarrow> toError n2s x)"

text \<open>
  The records the retry policy can produce for task \<open>t\<close> with retry budget \<open>n\<close> after
  \<open>k\<close> invocations: success of the last invocation after failures only; the captured
  \<open>null\<close> of a loop that never ran; the captured last failure once the budget is
  used up; the captured cancellation of the loop, retries still left, which needs
  the signal (\<open>ab\<close>).
\<close>

definition task_outcome :: "(jsnum \<Rightarrow> string) \<Rightarrow> task \<Rightarrow> int \<Rightarrow> bool \<Rightarrow> nat \<Rightarrow> result \<Rightarrow> bool" where
  "task_outcome n2s t n ab k res =
     ((0 < k \<and> int (k - 1) \<le> n \<and> rejects_upto t (k - 1)
         \<and> (case t (k - 1) of Fulfils v \<Rightarrow> res = Success v | Rejects e \<Rightarrow> False))
    \<or> (n < 0 \<and> k = 0 \<and> res = Captured (JError ''null''))
    \<or> (0 \<le> n \<and> k = Suc (nat n) \<and> rejects_upto t (nat n)
         \<and> (case t (nat n) of Rejects e \<Rightarrow> res = Captured (captured_error n2s e) | Fulfils v \<Rightarrow> False))
    \<or> (ab \<and> 0 < k \<and> int k \<le> n \<and> rejects_upto t k \<and> res = Captured (JError ''Task cancelled'')))"

text \<open>A suspended activation agrees with its task and the invocation count.\<close>

fun retry_ok :: "(jsnum \<Rightarrow> string) \<Rightarrow> task \<Rightarrow> int \<Rightarrow> bool \<Rightarrow> nat \<Rightarrow> retry \<Rightarrow> bool" where
  "retry_ok n2s t n ab k (OnTask a e s) = (k = Suc a \<and> int a \<le> n \<and> rejects_upto t a \<and> s = t a)"
| "retry_ok n2s t n ab k (OnBackoff a e ms cl) =
     (k = Suc a \<and> int a < n \<and> rejects_upto t a \<and> t a = Rejects e \<and> ms = 100 * (a + 1) \<and> cl = ab)"
| "retry_ok n2s t n ab k (Finished c) = task_outcome n2s t n ab k (record_of n2s c)"

text \<open>
  The invariant of a run, in five parts: the shape of the state; every suspended
  activation holds a claimed index whose slot is still null; every claimed index
  is held by an activation or has its record; an unclaimed index has not been
  invoked and its slot is null until the completion check fills it; a settled
  promise holds the final array and nothing is suspended any more.
\<close>

definition inv_shape :: "AsyncQueue \<Rightarrow> bool" where
  "inv_shape q =
     (length (results q) = length (tasks q) \<and> length (calls q) = length (tasks q)
      \<and> nextTaskIndex q \<le> length (tasks q) \<and> abortController q \<noteq> None
      \<and> runningCount q = int (length (chains q)) \<and> distinct (map fst (chains q)))"

definition inv_chains :: "(jsnum \<Rightarrow> string) \<Rightarrow> AsyncQueue \<Rightarrow> bool" where
  "inv_chains n2s q =
     (\<forall>(i, r) \<in> set (chains q). i < nextTaskIndex q \<and> results q ! i = None
        \<and> retry_ok n2s (tasks q ! i) (retryAttempts q) (aborted (abortController q)) (calls q ! i) r)"

definition inv_claimed :: "(jsnum \<Rightarrow> string) \<Rightarrow> AsyncQueue \<Rightarrow> bool" where
  "inv_claimed n2s q =
     (\<forall>i < nextTaskIndex q. i \<in> fst ` set (chains q)
        \<or> (\<exists>res. results q ! i = Some res
              \<and> task_outcome n2s (tasks q ! i) (retryAttempts q) (aborted (abortController q)) (calls q ! i) res))"

definition inv_unclaimed :: "AsyncQueue \<Rightarrow> bool" where
  "inv_unclaimed q =
     (\<forall>i < length (tasks q). nextTaskIndex q \<le> i \<longrightarrow>
        calls q ! i = 0
        \<and> (results q ! i = None
           \<or> (results q ! i = Some (Captured cancelErr) \<and> aborted (abortController q) \<and> promise q \<noteq> None)))"

definition inv_promise :: "AsyncQueue \<Rightarrow> bool" where
  "inv_promise q =
     (\<forall>v. promise q = Some v \<longrightarrow>
        v = results q \<and> chains q = [] \<and> (\<forall>i < length (results q). results q ! i \<noteq> None))"

definition run_inv :: "(jsnum \<Rightarrow> string) \<Rightarrow> AsyncQueue \<Rightarrow> bool" where
  "run_inv n2s q = (inv_shape q \<and> inv_chains n2s q \<and> inv_claimed n2s q \<and> inv_unclaimed q \<and> inv_promise q)"

text \<open>The parts of the state that a run never changes.\<close>

definition same_run :: "AsyncQueue \<Rightarrow> AsyncQueue \<Rightarrow> bool" where
  "same_run q q' = (tasks q' = tasks q \<and> retryAttempts q' = retryAttempts q
                     \<and> maxAtSameTime q' = maxAtSameTime q)"


section \<open>Progress of a run\<close>

text \<open>
  A bound on the resumptions an activation still has before its record is
  written, for retry budget \<open>R\<close>; and with it a bound on the events of a whole run:
  every task not yet claimed counts for a full activation.
\<close>

fun remaining :: "nat \<Rightarrow> retry \<Rightarrow> nat" where
  "remaining R (OnTask a e s) = 2 * (R - a) + 3"
| "remaining R (OnBackoff a e ms cl) = 2 * (R - a) + 2"
| "remaining R (Finished c) = 1"

definition fuel :: "AsyncQueue \<Rightarrow> nat" where
  "fuel q = (length (tasks q) - nextTaskIndex q) * (2 * nat (retryAttempts q) + 4)
            + sum_list (map (\<lambda>(i, r). remaining (nat (retryAttempts q)) r) (chains q))"

text \<open>While the promise of \<open>run\<close> is pending, some activation is suspended.\<close>

definition live :: "AsyncQueue \<Rightarrow> bool" where
  "live q = (chains q = [] \<longrightarrow> promise q \<noteq> None)"

text \<open>A schedule without cancellation.\<close>

fun resumes_only :: "event list \<Rightarrow> bool" where
  "resumes_only [] = True"
| "resumes_only (Resume c # es) = resumes_only es"
| "resumes_only (CancelAll # es) = False"


section \<open>Example runs\<close>

text \<open>\<open>run(ts)\<close> followed by the events \<open>evs\<close>.\<close>

definition run_events ::
  "(jsnum \<Rightarrow> string) \<Rightarrow> AsyncQueue \<Rightarrow> task list \<Rightarrow> event list \<Rightarrow> AsyncQueue option" where
  "run_events n2s q ts evs = (case run n2s q (Array ts) of Inl e \<Rightarrow> None | Inr w0 \<Rightarrow> exec n2s evs w0)"

text \<open>
  The examples throw no Number and pass no string to the constructor, so any
  conversion serves them.
\<close>

definition print_nothing :: "jsnum \<Rightarrow> string" where
  "print_nothing x = []"

definition read_NaN :: "string \<Rightarrow> jsnum" where
  "read_NaN s = NaN"

definition always_rejects :: "jsval \<Rightarrow> task" where
  "always_rejects e k = Rejects (Value e)"

text \<open>\<open>() => Promise.reject(Object.create(null))\<close>\<close>

definition rejects_unprintable :: task where
  "rejects_unprintable k = Rejects (Object None)"

definition always_fulfils :: "jsval \<Rightarrow> task" where
  "always_fulfils v k = Fulfils v"

text \<open>Fails with \<open>e\<close> on its first \<open>K\<close> invocations, then fulfils with \<open>v\<close>.\<close>

definition fails_first :: "nat \<Rightarrow> jsval \<Rightarrow> jsval \<Rightarrow> task" where
  "fails_first K e v k = (if k < K then Rejects (Value e) else Fulfils v)"

text \<open>The object that \<open>new AsyncQueue(c, r)\<close> builds for an integer \<open>c \<ge> 1\<close>.\<close>

definition new_queue :: "int \<Rightarrow> int \<Rightarrow> AsyncQueue" where
  "new_queue c r = \<lparr> maxAtSameTime = c, retryAttempts = r, abortController = None,
                     tasks = [], results = [], runningCount = 0, nextTaskIndex = 0,
                     finishedCount = 0, promise = None, chains = [], calls = [] \<rparr>"

section \<open>Proof of the invariant\<close>

lemma rejects_upto_iff: "rejects_upto t k \<longleftrightarrow> (\<forall>j<k. \<exists>e. t j = Rejects e)"
  by (induction k) (auto simp: less_Suc_eq split: settle.splits)

lemma task_outcome_mono: "task_outcome n2s t n ab k res \<Longrightarrow> task_outcome n2s t n True k res"
  by (auto simp: task_outcome_def)

lemma toError_null: "toError n2s JNull = JError ''null''"
  by (simp add: toError_def)

lemma fill_all_Some:
  "\<forall>i<length xs. xs ! i \<noteq> None \<Longrightarrow> map (\<lambda>res. case res of None \<Rightarrow> Some d | Some x \<Rightarrow> Some x) xs = xs"
  by (rule map_idI) (auto simp: in_set_conv_nth split: option.splits)

lemma inv_checkCompletion:
  assumes "run_inv n2s q" "nextTaskIndex q \<ge> length (tasks q) \<or> aborted (abortController q)"
  shows "run_inv n2s (checkCompletion q)"
proof (cases "runningCount q = 0")
  case False
  then show ?thesis using assms by (simp add: checkCompletion_def)
next
  case True
  with assms have ch: "chains q = []" by (simp add: run_inv_def inv_shape_def)
  show ?thesis
  proof (cases "aborted (abortController q)")
    case ab: True
    show ?thesis using assms(1) True ch ab
      apply (cases "promise q")
      apply (auto simp: run_inv_def inv_shape_def inv_chains_def inv_claimed_def inv_unclaimed_def inv_promise_def
          checkCompletion_def resolveQueue_def Let_def fill_all_Some split: option.splits)
      done
  next
    case nab: False
    show ?thesis using assms True ch nab
      apply (cases "promise q")
      apply (auto simp: run_inv_def inv_shape_def inv_chains_def inv_claimed_def inv_unclaimed_def inv_promise_def
          checkCompletion_def resolveQueue_def Let_def split: option.splits)
      done
  qed
qed


lemma inv_claim:
  assumes I: "run_inv n2s q"
    and lt: "nextTaskIndex q < length (tasks q)" and nab: "\<not> aborted (abortController q)"
  shows "run_inv n2s (processNext n2s q)"
proof -
  let ?i = "nextTaskIndex q"
  from I lt nab have c0: "calls q ! ?i = 0" and r0: "results q ! ?i = None"
    by (auto simp: run_inv_def inv_unclaimed_def)
  from I r0 lt have pn: "promise q = None"
    by (cases "promise q") (auto simp: run_inv_def inv_promise_def inv_shape_def)
  from I have notin: "?i \<notin> fst ` set (chains q)"
    by (fastforce simp: run_inv_def inv_chains_def)
  obtain r n where rn: "runTaskWithRetry n2s (tasks q ! ?i) 0 (retryAttempts q) (abortController q) = (r, n)"
    by fastforce
  have rok: "retry_ok n2s (tasks q ! ?i) (retryAttempts q) False n r"
    using rn nab
    by (auto simp: runTaskWithRetry_def next_attempt_def task_outcome_def record_of_def toError_null
        split: if_splits)
  have eq: "processNext n2s q = q\<lparr> nextTaskIndex := Suc ?i, runningCount := runningCount q + 1,
               calls := (calls q)[?i := n], chains := chains q @ [(?i, r)] \<rparr>"
    using lt nab rn c0 by (simp add: processNext_def Let_def)
  have 1: "inv_shape (processNext n2s q)"
    using I lt notin unfolding eq by (auto simp: run_inv_def inv_shape_def)
  have 2: "inv_chains n2s (processNext n2s q)"
    using I lt notin nab r0 rok unfolding eq
    by (auto simp: run_inv_def inv_shape_def inv_chains_def nth_list_update less_Suc_eq image_iff)
  have 3: "inv_claimed n2s (processNext n2s q)"
    using I lt nab unfolding eq
    by (auto simp: run_inv_def inv_shape_def inv_claimed_def nth_list_update less_Suc_eq)
  have 4: "inv_unclaimed (processNext n2s q)"
    using I lt nab unfolding eq
    by (auto simp: run_inv_def inv_shape_def inv_unclaimed_def nth_list_update)
  have 5: "inv_promise (processNext n2s q)"
    using pn unfolding eq by (simp add: inv_promise_def)
  from 1 2 3 4 5 show ?thesis by (simp add: run_inv_def)
qed

lemma inv_processNext: "run_inv n2s q \<Longrightarrow> run_inv n2s (processNext n2s q)"
proof (cases "nextTaskIndex q \<ge> length (tasks q) \<or> aborted (abortController q)")
  case True
  assume "run_inv n2s q"
  with True show ?thesis
    using inv_checkCompletion [of n2s q] by (simp add: processNext_def)
next
  case False
  assume "run_inv n2s q"
  with False show ?thesis using inv_claim [of n2s q] by simp
qed


lemma removed_set:
  assumes "distinct (map fst xs)" "c < length xs" "xs ! c = (i, r)"
  shows "set (take c xs @ drop (Suc c) xs) = {x \<in> set xs. fst x \<noteq> i}"
proof -
  have xs: "xs = take c xs @ (i, r) # drop (Suc c) xs"
    using assms(2,3) id_take_nth_drop [of c xs] by simp
  have "distinct (map fst (take c xs @ (i, r) # drop (Suc c) xs))"
    using assms(1) xs by simp
  then have a: "i \<notin> fst ` set (take c xs)" and b: "i \<notin> fst ` set (drop (Suc c) xs)"
    by auto
  have "set xs = set (take c xs @ (i, r) # drop (Suc c) xs)"
    using xs by simp
  then have c: "set xs = set (take c xs) \<union> {(i, r)} \<union> set (drop (Suc c) xs)"
    by simp
  show ?thesis using a b unfolding set_append c by (auto simp: image_iff)
qed

lemma distinct_remove_nth:
  assumes "distinct ys"
  shows "distinct (take c ys @ drop (Suc c) ys)"
proof -
  have "distinct (take c ys @ drop c ys)" using assms by simp
  then have d: "set (take c ys) \<inter> set (drop c ys) = {}" by (simp only: distinct_append)
  have "drop (Suc c) ys = drop 1 (drop c ys)" by simp
  then have "set (drop (Suc c) ys) \<subseteq> set (drop c ys)" by (metis set_drop_subset)
  with d have "set (take c ys) \<inter> set (drop (Suc c) ys) = {}" by blast
  then show ?thesis using assms by simp
qed

lemma removed_distinct:
  assumes "distinct (map fst xs)"
  shows "distinct (map fst (take c xs @ drop (Suc c) xs))"
  using distinct_remove_nth [OF assms, of c] by (simp add: take_map drop_map)

lemma updated_set:
  assumes "distinct (map fst xs)" "c < length xs" "xs ! c = (i, r)"
  shows "set (xs[c := (i, r')]) = insert (i, r') {x \<in> set xs. fst x \<noteq> i}"
proof -
  have "xs[c := (i, r')] = take c xs @ (i, r') # drop (Suc c) xs"
    using assms(2) by (simp add: upd_conv_take_nth_drop)
  then have "set (xs[c := (i, r')]) = insert (i, r') (set (take c xs @ drop (Suc c) xs))"
    by simp
  then show ?thesis using removed_set [OF assms] by simp
qed

lemma updated_keys:
  assumes "c < length xs" "xs ! c = (i, r)"
  shows "map fst (xs[c := (i, r')]) = map fst xs"
proof -
  have "map fst (xs[c := (i, r')]) = (map fst xs)[c := i]" by (simp add: map_update)
  also have "\<dots> = map fst xs" using assms by (simp add: list_update_same_conv)
  finally show ?thesis .
qed


lemma retry_ok_resume:
  assumes ok: "retry_ok n2s t n (aborted sg) k r"
    and rs: "resume_retry n2s t k n sg r = Some (r', k')"
  shows "retry_ok n2s t n (aborted sg) k' r'"
proof (cases r)
  case (OnTask a e s)
  with ok have k: "k = Suc a" and a: "int a \<le> n" and ru: "rejects_upto t a" and s: "t a = s"
    by auto
  show ?thesis
  proof (cases s)
    case (Fulfils v)
    with OnTask rs have "r' = Finished (Returned (Success v))" "k' = k" by auto
    with k a ru s Fulfils show ?thesis
      by (simp add: task_outcome_def record_of_def)
  next
    case (Rejects err)
    show ?thesis
    proof (cases "int a < n \<and> \<not> aborted sg")
      case True
      with OnTask Rejects rs have "r' = OnBackoff a err (100 * (a + 1)) False" "k' = k" by auto
      with True k ru s Rejects show ?thesis by simp
    next
      case False
      with OnTask Rejects rs have na: "next_attempt n2s t k n sg (a + 1) err = (r', k')" by auto
      have ru': "rejects_upto t (Suc a)" using ru s Rejects by simp
      show ?thesis
      proof (cases "int (a + 1) \<le> n")
        case True
        with False have ab: "aborted sg" by auto
        with True na have "r' = Finished (Thrown (JError ''Task cancelled''))" "k' = k"
          by (auto simp: next_attempt_def)
        with ab True k ru' show ?thesis
          by (simp add: task_outcome_def record_of_def toError_def)
      next
        case F2: False
        with na have r': "record_of n2s
                            (case r' of Finished c \<Rightarrow> c | _ \<Rightarrow> Thrown JNull)
                          = Captured (captured_error n2s err)"
          "\<exists>c. r' = Finished c" "k' = k"
          by (auto simp: next_attempt_def record_of_def captured_error_def split: sum.splits)
        from F2 a have "nat n = a" "0 \<le> n" by auto
        with r' k ru s Rejects show ?thesis
          by (auto simp: task_outcome_def)
      qed
    qed
  qed
next
  case (OnBackoff a e ms cl)
  with ok have k: "k = Suc a" and a: "int a < n" and ru: "rejects_upto t a" and s: "t a = Rejects e"
    and cl: "cl = aborted sg"
    by auto
  from OnBackoff rs have ncl: "\<not> cl" and na: "next_attempt n2s t k n sg (a + 1) e = (r', k')"
    by (auto split: if_splits)
  from na a ncl cl have "r' = OnTask (a + 1) e (t k)" "k' = Suc k"
    by (auto simp: next_attempt_def)
  with k a ru s show ?thesis by simp
next
  case (Finished c)
  with rs show ?thesis by simp
qed

lemma retry_ok_abort:
  "retry_ok n2s t n False k r \<Longrightarrow> retry_ok n2s t n True k (abort_listener r)"
  by (cases r) (auto intro: task_outcome_mono)


lemma inv_written:
  assumes I: "run_inv n2s q" and mem: "(i, Finished cm) \<in> set (chains q)"
    and rs: "set ch' = {x \<in> set (chains q). fst x \<noteq> i}"
    and d': "distinct (map fst ch')"
    and len: "int (length ch') = int (length (chains q)) - 1"
  shows "run_inv n2s (q\<lparr> chains := ch',
                      results := (results q)[i := Some (record_of n2s cm)],
                      runningCount := runningCount q - 1,
                      finishedCount := finishedCount q + 1 \<rparr>)"
    (is "run_inv n2s ?q'")
proof -
  from I mem have i: "i < nextTaskIndex q"
    and ok: "task_outcome n2s (tasks q ! i) (retryAttempts q) (aborted (abortController q))
               (calls q ! i) (record_of n2s cm)"
    by (auto simp: run_inv_def inv_chains_def)
  from I have il: "nextTaskIndex q \<le> length (tasks q)" "length (results q) = length (tasks q)"
    by (auto simp: run_inv_def inv_shape_def)
  from I mem have pn: "promise q = None"
    by (cases "promise q") (auto simp: run_inv_def inv_promise_def)
  have 1: "inv_shape ?q'"
    using I d' len by (auto simp: run_inv_def inv_shape_def)
  have 2: "inv_chains n2s ?q'"
    using I by (auto simp: run_inv_def inv_chains_def rs nth_list_update)
  have 3: "inv_claimed n2s ?q'"
    unfolding inv_claimed_def
  proof (intro allI impI)
    fix j assume j: "j < nextTaskIndex ?q'"
    show "j \<in> fst ` set (chains ?q') \<or> (\<exists>res. results ?q' ! j = Some res \<and>
            task_outcome n2s (tasks ?q' ! j) (retryAttempts ?q') (aborted (abortController ?q'))
              (calls ?q' ! j) res)"
    proof (cases "j = i")
      case True
      with ok i il show ?thesis by simp
    next
      case False
      from I j have "j \<in> fst ` set (chains q) \<or> (\<exists>res. results q ! j = Some res \<and>
            task_outcome n2s (tasks q ! j) (retryAttempts q) (aborted (abortController q))
              (calls q ! j) res)"
        by (simp add: run_inv_def inv_claimed_def)
      with False show ?thesis by (auto simp: rs image_iff)
    qed
  qed
  have 4: "inv_unclaimed ?q'"
    using I i by (auto simp: run_inv_def inv_unclaimed_def nth_list_update)
  have 5: "inv_promise ?q'"
    using pn by (simp add: inv_promise_def)
  from 1 2 3 4 5 show ?thesis by (simp add: run_inv_def)
qed

lemma inv_resumed:
  assumes I: "run_inv n2s q" and mem: "(i, r) \<in> set (chains q)"
    and rs: "resume_retry n2s (tasks q ! i) (calls q ! i) (retryAttempts q) (abortController q) r
               = Some (r', n)"
    and us: "set ch' = insert (i, r') {x \<in> set (chains q). fst x \<noteq> i}"
    and uk: "map fst ch' = map fst (chains q)"
  shows "run_inv n2s (q\<lparr> chains := ch', calls := (calls q)[i := n] \<rparr>)"
    (is "run_inv n2s ?q'")
proof -
  from I mem have i: "i < nextTaskIndex q" and ri: "results q ! i = None"
    and ok: "retry_ok n2s (tasks q ! i) (retryAttempts q) (aborted (abortController q)) (calls q ! i) r"
    by (auto simp: run_inv_def inv_chains_def)
  from I have il: "nextTaskIndex q \<le> length (tasks q)" "length (calls q) = length (tasks q)"
    by (auto simp: run_inv_def inv_shape_def)
  from I mem have pn: "promise q = None"
    by (cases "promise q") (auto simp: run_inv_def inv_promise_def)
  note ok' = retry_ok_resume [OF ok rs]
  have ks: "fst ` set ch' = fst ` set (chains q)"
    using uk by (metis list.set_map)
  have ik: "i \<in> fst ` set (chains q)" using mem by force
  have "length ch' = length (chains q)" using uk by (metis length_map)
  then have 1: "inv_shape ?q'"
    using I uk by (auto simp: run_inv_def inv_shape_def)
  have 2: "inv_chains n2s ?q'"
    using I ok' ri i il by (auto simp: run_inv_def inv_chains_def us nth_list_update)
  have 3: "inv_claimed n2s ?q'"
    unfolding inv_claimed_def
  proof (intro allI impI)
    fix j assume j: "j < nextTaskIndex ?q'"
    show "j \<in> fst ` set (chains ?q') \<or> (\<exists>res. results ?q' ! j = Some res \<and>
            task_outcome n2s (tasks ?q' ! j) (retryAttempts ?q') (aborted (abortController ?q'))
              (calls ?q' ! j) res)"
    proof (cases "j = i")
      case True
      with ik show ?thesis by (simp add: ks)
    next
      case False
      from I j have "j \<in> fst ` set (chains q) \<or> (\<exists>res. results q ! j = Some res \<and>
            task_outcome n2s (tasks q ! j) (retryAttempts q) (aborted (abortController q))
              (calls q ! j) res)"
        by (simp add: run_inv_def inv_claimed_def)
      with False show ?thesis by (auto simp: ks)
    qed
  qed
  have 4: "inv_unclaimed ?q'"
    using I i by (auto simp: run_inv_def inv_unclaimed_def nth_list_update)
  have 5: "inv_promise ?q'"
    using pn by (simp add: inv_promise_def)
  from 1 2 3 4 5 show ?thesis by (simp add: run_inv_def)
qed

lemma inv_aborted:
  assumes I: "run_inv n2s q" and nab: "\<not> aborted (abortController q)"
    and ch': "ch' = map (\<lambda>(i, r). (i, abort_listener r)) (chains q)"
  shows "run_inv n2s (q\<lparr> abortController := Some True, chains := ch' \<rparr>)"
    (is "run_inv n2s ?q'")
proof -
  have ab: "aborted (Some True)" by (simp add: aborted_def)
  have ks: "map fst ch' = map fst (chains q)"
    unfolding ch' by (induction "chains q") (auto simp: case_prod_beta)
  have st: "set ch' = (\<lambda>(i, r). (i, abort_listener r)) ` set (chains q)"
    unfolding ch' by simp
  have em: "ch' = [] \<longleftrightarrow> chains q = []" unfolding ch' by simp
  have "length ch' = length (chains q)" unfolding ch' by simp
  then have 1: "inv_shape ?q'"
    using I ks by (simp add: run_inv_def inv_shape_def)
  have 2: "inv_chains n2s ?q'"
    using I nab ab by (auto simp: run_inv_def inv_chains_def st intro: retry_ok_abort)
  have fk: "fst ` set ch' = fst ` set (chains q)" using ks by (metis list.set_map)
  have 3: "inv_claimed n2s ?q'"
    unfolding inv_claimed_def
  proof (intro allI impI)
    fix j assume j: "j < nextTaskIndex ?q'"
    with I have "j \<in> fst ` set (chains q) \<or> (\<exists>res. results q ! j = Some res \<and>
            task_outcome n2s (tasks q ! j) (retryAttempts q) (aborted (abortController q))
              (calls q ! j) res)"
      by (simp add: run_inv_def inv_claimed_def)
    then have "j \<in> fst ` set (chains q) \<or> (\<exists>res. results q ! j = Some res \<and>
            task_outcome n2s (tasks q ! j) (retryAttempts q) True (calls q ! j) res)"
      using task_outcome_mono by blast
    then show "j \<in> fst ` set (chains ?q') \<or> (\<exists>res. results ?q' ! j = Some res \<and>
            task_outcome n2s (tasks ?q' ! j) (retryAttempts ?q') (aborted (abortController ?q'))
              (calls ?q' ! j) res)"
      using ab by (simp add: fk)
  qed
  have 4: "inv_unclaimed ?q'"
    using I ab by (auto simp: run_inv_def inv_unclaimed_def)
  have 5: "inv_promise ?q'"
    using I em by (auto simp: run_inv_def inv_promise_def)
  from 1 2 3 4 5 show ?thesis by (simp add: run_inv_def)
qed

lemma inv_cancelAll: "run_inv n2s q \<Longrightarrow> run_inv n2s (cancelAll q)"
  using inv_aborted [of n2s q, OF _ _ refl]
  by (auto simp: cancelAll_def aborted_def split: option.splits)


lemma same_run_refl: "same_run q q"
  by (simp add: same_run_def)

lemma same_run_trans: "same_run q q' \<Longrightarrow> same_run q' q'' \<Longrightarrow> same_run q q''"
  by (simp add: same_run_def)

lemma same_run_checkCompletion: "same_run q (checkCompletion q)"
  by (simp add: same_run_def checkCompletion_def resolveQueue_def Let_def split: option.splits)

lemma same_run_processNext: "same_run q (processNext n2s q)"
  using same_run_checkCompletion [of q]
  by (simp add: processNext_def Let_def same_run_def split: prod.splits)

lemma same_run_cancelAll: "same_run q (cancelAll q)"
  by (simp add: same_run_def cancelAll_def split: option.splits)

lemma chains_checkCompletion: "chains (checkCompletion q) = chains q"
  by (simp add: checkCompletion_def resolveQueue_def Let_def split: option.splits)

lemma length_chains_processNext: "length (chains (processNext n2s q)) \<le> Suc (length (chains q))"
  by (simp add: processNext_def Let_def chains_checkCompletion split: prod.splits)

lemma runningCount_processNext:
  "runningCount (processNext n2s q) = runningCount q
     \<or> runningCount (processNext n2s q) = runningCount q + 1"
  by (simp add: processNext_def checkCompletion_def resolveQueue_def Let_def
      split: prod.splits option.splits)

lemma resume_cases:
  assumes "resume n2s c q = Some q'"
  obtains
    (settled) i cm where "c < length (chains q)" "chains q ! c = (i, Finished cm)"
      "q' = processNext n2s (q\<lparr> chains := take c (chains q) @ drop (Suc c) (chains q),
                      results := (results q)[i := Some (record_of n2s cm)],
                      runningCount := runningCount q - 1,
                      finishedCount := finishedCount q + 1 \<rparr>)"
  | (resumed) i r r' n where "c < length (chains q)" "chains q ! c = (i, r)"
      "resume_retry n2s (tasks q ! i) (calls q ! i) (retryAttempts q) (abortController q) r
               = Some (r', n)"
      "q' = q\<lparr> chains := (chains q)[c := (i, r')], calls := (calls q)[i := n] \<rparr>"
proof -
  from assms have c: "c < length (chains q)"
    by (simp add: resume_def split: if_splits)
  obtain i r where ch: "chains q ! c = (i, r)" by fastforce
  show ?thesis
  proof (cases "\<exists>cm. r = Finished cm")
    case True
    then obtain cm where "r = Finished cm" by blast
    with assms c ch show ?thesis
      by (intro settled [of i cm]) (auto simp: resume_def settled_def)
  next
    case False
    with assms c ch obtain r' n where
      "resume_retry n2s (tasks q ! i) (calls q ! i) (retryAttempts q) (abortController q) r
         = Some (r', n)"
      "q' = q\<lparr> chains := (chains q)[c := (i, r')], calls := (calls q)[i := n] \<rparr>"
      by (cases r) (auto simp: resume_def Let_def split: option.splits)
    with c ch show ?thesis by (rule resumed)
  qed
qed

lemma inv_resume:
  assumes I: "run_inv n2s q" and r: "resume n2s c q = Some q'"
  shows "run_inv n2s q'"
  using r
proof (cases rule: resume_cases)
  case (settled i cm)
  from I have d: "distinct (map fst (chains q))" by (simp add: run_inv_def inv_shape_def)
  have mem: "(i, Finished cm) \<in> set (chains q)" using settled(1,2) by (metis nth_mem)
  have len: "int (length (take c (chains q) @ drop (Suc c) (chains q))) = int (length (chains q)) - 1"
    using settled(1) by auto
  show ?thesis
    unfolding settled(3)
    by (intro inv_processNext inv_written [OF I mem removed_set [OF d settled(1,2)]
          removed_distinct [OF d] len])
next
  case (resumed i r r' n)
  from I have d: "distinct (map fst (chains q))" by (simp add: run_inv_def inv_shape_def)
  have mem: "(i, r) \<in> set (chains q)" using resumed(1,2) by (metis nth_mem)
  show ?thesis
    unfolding resumed(4)
    by (intro inv_resumed [OF I mem resumed(3) updated_set [OF d resumed(1,2)]
          updated_keys [OF resumed(1,2)]])
qed

lemma same_run_resume:
  assumes "resume n2s c q = Some q'"
  shows "same_run q q'"
  using assms
proof (cases rule: resume_cases)
  case (settled i cm)
  show ?thesis unfolding settled(3)
    by (rule same_run_trans [OF _ same_run_processNext]) (simp add: same_run_def)
next
  case (resumed i r r' n)
  then show ?thesis by (simp add: same_run_def)
qed

lemma length_chains_resume:
  assumes "resume n2s c q = Some q'"
  shows "length (chains q') \<le> length (chains q)"
  using assms
proof (cases rule: resume_cases)
  case (settled i cm)
  show ?thesis unfolding settled(3)
    using length_chains_processNext [of n2s "q\<lparr> chains := take c (chains q) @ drop (Suc c) (chains q),
                      results := (results q)[i := Some (record_of n2s cm)],
                      runningCount := runningCount q - 1,
                      finishedCount := finishedCount q + 1 \<rparr>"] settled(1)
    by simp
next
  case (resumed i r r' n)
  then show ?thesis by simp
qed

lemma length_chains_cancelAll: "length (chains (cancelAll q)) = length (chains q)"
  by (simp add: cancelAll_def split: option.splits)

lemma step_preserves:
  assumes "step n2s e q = Some q'"
  shows "(run_inv n2s q \<longrightarrow> run_inv n2s q') \<and> same_run q q' \<and> length (chains q') \<le> length (chains q)"
proof (cases e)
  case (Resume c)
  with assms show ?thesis
    using inv_resume same_run_resume length_chains_resume by auto
next
  case CancelAll
  with assms show ?thesis
    using inv_cancelAll same_run_cancelAll length_chains_cancelAll by auto
qed

lemma exec_preserves:
  "exec n2s evs q = Some q' \<Longrightarrow> run_inv n2s q \<Longrightarrow>
     run_inv n2s q' \<and> same_run q q' \<and> length (chains q') \<le> length (chains q)"
proof (induction evs arbitrary: q)
  case Nil
  then show ?case by (simp add: same_run_refl)
next
  case (Cons e evs)
  from Cons.prems(1) obtain q1 where s: "step n2s e q = Some q1" and e: "exec n2s evs q1 = Some q'"
    by (auto split: option.splits)
  from step_preserves [OF s] Cons.prems(2)
  have 1: "run_inv n2s q1" "same_run q q1" "length (chains q1) \<le> length (chains q)" by auto
  from Cons.IH [OF e 1(1)] 1 show ?case
    using same_run_trans by (auto intro: order_trans)
qed


lemma inv_reset:
  "run_inv n2s (q\<lparr> tasks := ts, results := replicate (length ts) None,
                 abortController := Some False, nextTaskIndex := 0, runningCount := 0,
                 finishedCount := 0, promise := None, chains := [],
                 calls := replicate (length ts) 0 \<rparr>)"
  by (simp add: run_inv_def inv_shape_def inv_chains_def inv_claimed_def inv_unclaimed_def
      inv_promise_def)

lemma claim_fields:
  assumes "nextTaskIndex q < length (tasks q)" "\<not> aborted (abortController q)"
  shows "abortController (processNext n2s q) = abortController q"
    and "nextTaskIndex (processNext n2s q) = Suc (nextTaskIndex q)"
    and "length (chains (processNext n2s q)) = Suc (length (chains q))"
    and "promise (processNext n2s q) = promise q"
  using assms by (simp_all add: processNext_def Let_def split: prod.splits)

lemma batch:
  assumes "run_inv n2s q" "\<not> aborted (abortController q)" "nextTaskIndex q + k \<le> length (tasks q)"
  shows "run_inv n2s ((processNext n2s ^^ k) q) \<and> same_run q ((processNext n2s ^^ k) q)
         \<and> abortController ((processNext n2s ^^ k) q) = abortController q
         \<and> nextTaskIndex ((processNext n2s ^^ k) q) = nextTaskIndex q + k
         \<and> length (chains ((processNext n2s ^^ k) q)) = length (chains q) + k
         \<and> promise ((processNext n2s ^^ k) q) = promise q"
  using assms(3)
proof (induction k)
  case 0
  with assms show ?case by (simp add: same_run_refl)
next
  case (Suc k)
  let ?p = "(processNext n2s ^^ k) q"
  from Suc have IH: "run_inv n2s ?p" "same_run q ?p" "abortController ?p = abortController q"
    "nextTaskIndex ?p = nextTaskIndex q + k" "length (chains ?p) = length (chains q) + k"
    "promise ?p = promise q"
    by auto
  from IH(2) have t: "tasks ?p = tasks q" by (simp add: same_run_def)
  have lt: "nextTaskIndex ?p < length (tasks ?p)" using Suc.prems IH(4) t by simp
  have nab: "\<not> aborted (abortController ?p)" using assms(2) IH(3) by simp
  have "same_run q (processNext n2s ?p)"
    using IH(2) same_run_processNext by (rule same_run_trans)
  with claim_fields [OF lt nab, of n2s] inv_processNext [OF IH(1)] IH
  show ?case by simp
qed

lemma run_start:
  assumes "run n2s q (Array ts) = Inr w0"
  shows "run_inv n2s w0" and "tasks w0 = ts" and "retryAttempts w0 = retryAttempts q"
    and "maxAtSameTime w0 = maxAtSameTime q"
    and "length (chains w0) = nat (min (maxAtSameTime q) (int (length ts)))"
    and "abortController w0 = Some False"
    and "nextTaskIndex w0 = nat (min (maxAtSameTime q) (int (length ts)))"
    and "promise w0 = (if ts = [] then Some [] else None)"
proof -
  define q1 where "q1 = q\<lparr> tasks := ts, results := replicate (length ts) None,
                 abortController := Some False, nextTaskIndex := 0, runningCount := 0,
                 finishedCount := 0, promise := None, chains := [],
                 calls := replicate (length ts) 0 \<rparr>"
  have I: "run_inv n2s q1" unfolding q1_def by (rule inv_reset)
  have f: "tasks q1 = ts" "retryAttempts q1 = retryAttempts q" "maxAtSameTime q1 = maxAtSameTime q"
    "chains q1 = []" "abortController q1 = Some False" "nextTaskIndex q1 = 0" "promise q1 = None"
    "results q1 = replicate (length ts) None"
    by (simp_all add: q1_def)
  let ?k = "nat (min (maxAtSameTime q) (int (length ts)))"
  have w0: "w0 = (if ts = [] then resolveQueue [] q1 else (processNext n2s ^^ ?k) q1)"
    using assms by (simp add: run_def q1_def Let_def split: if_splits)
  have "run_inv n2s w0 \<and> tasks w0 = ts \<and> retryAttempts w0 = retryAttempts q
      \<and> maxAtSameTime w0 = maxAtSameTime q \<and> length (chains w0) = ?k
      \<and> abortController w0 = Some False \<and> nextTaskIndex w0 = ?k
      \<and> promise w0 = (if ts = [] then Some [] else None)"
  proof (cases "ts = []")
    case True
    with w0 have "w0 = q1\<lparr>promise := Some []\<rparr>" by (simp add: resolveQueue_def f)
    with True I f show ?thesis
      by (auto simp: run_inv_def inv_shape_def inv_chains_def inv_claimed_def inv_unclaimed_def
          inv_promise_def)
  next
    case False
    have "\<not> aborted (abortController q1)" by (simp add: f aborted_def)
    moreover have "nextTaskIndex q1 + ?k \<le> length (tasks q1)" by (simp add: f)
    ultimately show ?thesis
      using batch [OF I, of ?k] False w0 f by (simp add: same_run_def)
  qed
  then show "run_inv n2s w0" and "tasks w0 = ts" and "retryAttempts w0 = retryAttempts q"
    and "maxAtSameTime w0 = maxAtSameTime q"
    and "length (chains w0) = nat (min (maxAtSameTime q) (int (length ts)))"
    and "abortController w0 = Some False"
    and "nextTaskIndex w0 = nat (min (maxAtSameTime q) (int (length ts)))"
    and "promise w0 = (if ts = [] then Some [] else None)"
    by simp_all
qed

lemma run_reach:
  assumes "run n2s q (Array ts) = Inr w0" "exec n2s evs w0 = Some w"
  shows "run_inv n2s w" and "tasks w = ts" and "retryAttempts w = retryAttempts q"
    and "maxAtSameTime w = maxAtSameTime q"
    and "length (chains w) \<le> nat (min (maxAtSameTime q) (int (length ts)))"
  using exec_preserves [OF assms(2) run_start(1) [OF assms(1)]] run_start(2-5) [OF assms(1)]
  by (simp_all add: same_run_def)

section \<open>Consequences for a run\<close>

text \<open>What the invariant says of a delivered array and of a written slot.\<close>

lemma delivered:
  assumes "run_inv n2s w" "promise w = Some rs" "i < length (tasks w)"
  shows "rs = results w" and "chains w = []" and "length rs = length (tasks w)"
    and "i < nextTaskIndex w \<Longrightarrow> \<exists>res. rs ! i = Some res \<and>
           task_outcome n2s (tasks w ! i) (retryAttempts w) (aborted (abortController w)) (calls w ! i) res"
    and "nextTaskIndex w \<le> i \<Longrightarrow> rs ! i = Some (Captured cancelErr) \<and> aborted (abortController w) \<and> calls w ! i = 0"
proof -
  from assms(1,2) show rs: "rs = results w" and ch: "chains w = []"
    by (auto simp: run_inv_def inv_promise_def)
  from assms(1) rs show len: "length rs = length (tasks w)" by (simp add: run_inv_def inv_shape_def)
  { assume "i < nextTaskIndex w"
    with assms(1) ch rs show "\<exists>res. rs ! i = Some res \<and>
           task_outcome n2s (tasks w ! i) (retryAttempts w) (aborted (abortController w)) (calls w ! i) res"
      by (auto simp: run_inv_def inv_claimed_def) }
  { assume "nextTaskIndex w \<le> i"
    moreover from assms len rs have "results w ! i \<noteq> None" by (auto simp: run_inv_def inv_promise_def)
    ultimately show "rs ! i = Some (Captured cancelErr) \<and> aborted (abortController w) \<and> calls w ! i = 0"
      using assms(1,3) rs by (auto simp: run_inv_def inv_unclaimed_def) }
qed

lemma written:
  assumes "run_inv n2s w" "i < length (tasks w)" "results w ! i = Some res"
  shows "(i < nextTaskIndex w \<and>
           task_outcome n2s (tasks w ! i) (retryAttempts w) (aborted (abortController w)) (calls w ! i) res)
         \<or> (nextTaskIndex w \<le> i \<and> res = Captured cancelErr \<and> aborted (abortController w) \<and> calls w ! i = 0
              \<and> promise w \<noteq> None)"
proof (cases "i < nextTaskIndex w")
  case True
  have "i \<notin> fst ` set (chains w)"
    using assms(1,3) by (fastforce simp: run_inv_def inv_chains_def)
  with True assms(1,3) show ?thesis by (auto simp: run_inv_def inv_claimed_def)
next
  case False
  with assms show ?thesis by (auto simp: run_inv_def inv_unclaimed_def)
qed

lemma in_flight:
  assumes "run_inv n2s w"
  shows "fst ` set (chains w) = {i. i < nextTaskIndex w \<and> results w ! i = None}"
proof (intro set_eqI iffI)
  fix i assume "i \<in> fst ` set (chains w)"
  with assms show "i \<in> {i. i < nextTaskIndex w \<and> results w ! i = None}"
    by (fastforce simp: run_inv_def inv_chains_def)
next
  fix i assume "i \<in> {i. i < nextTaskIndex w \<and> results w ! i = None}"
  with assms show "i \<in> fst ` set (chains w)"
    by (auto simp: run_inv_def inv_claimed_def)
qed

lemma rejects_upto_le: "rejects_upto t k \<Longrightarrow> j \<le> k \<Longrightarrow> rejects_upto t j"
  by (auto simp: rejects_upto_iff)

lemma rejects_upto_not_Fulfils: "rejects_upto t k \<Longrightarrow> j < k \<Longrightarrow> t j \<noteq> Fulfils v"
  by (auto simp: rejects_upto_iff)

lemma outcome_success:
  assumes "task_outcome n2s t n False k res"
    and "rejects_upto t K" "t K = Fulfils v" "int K < n"
  shows "res = Success v \<and> k = Suc K"
proof -
  from assms(1) consider
    (s) "0 < k" "rejects_upto t (k - 1)" "case t (k - 1) of Fulfils v \<Rightarrow> res = Success v | Rejects e \<Rightarrow> False"
    | (z) "n < 0"
    | (x) "0 \<le> n" "rejects_upto t (nat n)"
    by (auto simp: task_outcome_def)
  then show ?thesis
  proof cases
    case s
    have "\<not> k - 1 < K" using s(3) assms(2) by (auto simp: rejects_upto_iff split: settle.splits)
    moreover have "\<not> K < k - 1" using s(2) assms(3) by (auto simp: rejects_upto_iff)
    ultimately have "k - 1 = K" by simp
    with s assms(3) show ?thesis by auto
  next
    case z
    with assms(4) show ?thesis by simp
  next
    case x
    with assms(3,4) have False using rejects_upto_not_Fulfils [of t "nat n" K v] by simp
    then show ?thesis ..
  qed
qed


text \<open>
  An activation whose backoff timer has been cleared stays where it is through
  every later event: its slot stays null and the promise of \<open>run\<close> stays pending.
\<close>

lemma chains_processNext_mono: "set (chains q) \<subseteq> set (chains (processNext n2s q))"
  by (auto simp: processNext_def Let_def chains_checkCompletion split: prod.splits)

lemma unique_key:
  assumes "distinct (map fst xs)" "(i, r) \<in> set xs" "(i, r') \<in> set xs"
  shows "r = r'"
  using assms by (meson eq_key_imp_eq_value)

lemma cleared_stays_step:
  assumes I: "run_inv n2s w" and m: "(i, OnBackoff a e ms True) \<in> set (chains w)"
    and s: "step n2s ev w = Some w'"
  shows "(i, OnBackoff a e ms True) \<in> set (chains w')"
proof (cases ev)
  case CancelAll
  have "(\<lambda>(i, r). (i, abort_listener r)) (i, OnBackoff a e ms True) = (i, OnBackoff a e ms True)"
    by simp
  with m have "(i, OnBackoff a e ms True) \<in> (\<lambda>(i, r). (i, abort_listener r)) ` set (chains w)"
    by (metis (no_types, lifting) image_eqI)
  with CancelAll s m show ?thesis
    by (auto simp: cancelAll_def split: option.splits if_splits)
next
  case (Resume c)
  from I have d: "distinct (map fst (chains w))" by (simp add: run_inv_def inv_shape_def)
  from Resume s have "resume n2s c w = Some w'" by simp
  then show ?thesis
  proof (cases rule: resume_cases)
    case (settled j cm)
    have "(j, Finished cm) \<in> set (chains w)" using settled(1,2) by (metis nth_mem)
    with unique_key [OF d m] have "j \<noteq> i" by auto
    with m have "(i, OnBackoff a e ms True) \<in> set (take c (chains w) @ drop (Suc c) (chains w))"
      unfolding removed_set [OF d settled(1,2)] by simp
    then show ?thesis
      unfolding settled(3) using chains_processNext_mono by (fastforce simp del: set_append)
  next
    case (resumed j r r' n)
    have jr: "(j, r) \<in> set (chains w)" using resumed(1,2) by (metis nth_mem)
    have "j \<noteq> i"
    proof
      assume "j = i"
      with unique_key [OF d m] jr have "r = OnBackoff a e ms True" by auto
      with resumed(3) show False by simp
    qed
    with m show ?thesis
      unfolding resumed(4) by (simp add: updated_set [OF d resumed(1,2)])
  qed
qed

lemma cleared_backoff_never_resumes:
  assumes "run_inv n2s w" and "(i, OnBackoff a e ms True) \<in> set (chains w)"
    and "exec n2s evs w = Some w'"
  shows "(i, OnBackoff a e ms True) \<in> set (chains w') \<and> promise w' = None \<and> results w' ! i = None"
  using assms
proof (induction evs arbitrary: w)
  case Nil
  then show ?case
    by (cases "promise w") (auto simp: run_inv_def inv_promise_def inv_chains_def)
next
  case (Cons ev evs)
  from Cons.prems(3) obtain w1 where s: "step n2s ev w = Some w1" and e: "exec n2s evs w1 = Some w'"
    by (auto split: option.splits)
  from step_preserves [OF s] Cons.prems(1) have "run_inv n2s w1" by simp
  from Cons.IH [OF this cleared_stays_step [OF Cons.prems(1,2) s] e] show ?case .
qed

text \<open>
  So in every run, \<open>cancelAll\<close> during a backoff wait leaves the task without a
  record and the promise of \<open>run\<close> pending for ever.
\<close>

lemma cancel_during_backoff_never_resolves:
  assumes r: "run n2s q (Array ts) = Inr w0" and e: "exec n2s evs w0 = Some w"
    and m: "(i, OnBackoff a err ms False) \<in> set (chains w)"
    and e': "exec n2s evs' (cancelAll w) = Some w'"
  shows "promise w' = None \<and> results w' ! i = None \<and> (i, OnBackoff a err ms True) \<in> set (chains w')"
proof -
  note I = run_reach(1) [OF r e]
  from I m have "\<not> aborted (abortController w)" by (fastforce simp: run_inv_def inv_chains_def)
  moreover from I obtain b where "abortController w = Some b"
    by (auto simp: run_inv_def inv_shape_def)
  ultimately have c: "cancelAll w = w\<lparr> abortController := Some True,
                         chains := map (\<lambda>(i, r). (i, abort_listener r)) (chains w) \<rparr>"
    by (cases b) (simp_all add: cancelAll_def aborted_def)
  have "(\<lambda>(i, r). (i, abort_listener r)) (i, OnBackoff a err ms False) = (i, OnBackoff a err ms True)"
    by simp
  with m have "(i, OnBackoff a err ms True) \<in> (\<lambda>(i, r). (i, abort_listener r)) ` set (chains w)"
    by (metis (no_types, lifting) image_eqI)
  then have m': "(i, OnBackoff a err ms True) \<in> set (chains (cancelAll w))"
    by (simp add: c)
  from cleared_backoff_never_resumes [OF inv_cancelAll [OF I] m' e'] show ?thesis by simp
qed

section \<open>Progress and termination\<close>

lemma remaining_next_attempt:
  "remaining (nat n) (fst (next_attempt n2s t k n sg a e)) \<le> 2 * (nat n - a) + 3"
  by (auto simp: next_attempt_def split: sum.splits)

lemma remaining_resume_retry:
  assumes "resume_retry n2s t k n sg r = Some (r', k')"
  shows "remaining (nat n) r' < remaining (nat n) r"
proof (cases r)
  case (OnTask a e s)
  show ?thesis
  proof (cases s)
    case (Fulfils v)
    with OnTask assms show ?thesis by auto
  next
    case (Rejects err)
    show ?thesis
    proof (cases "int a < n \<and> \<not> aborted sg")
      case True
      with OnTask Rejects assms show ?thesis by auto
    next
      case False
      with OnTask Rejects assms have na: "next_attempt n2s t k n sg (a + 1) err = (r', k')" by auto
      show ?thesis
      proof (cases "int (a + 1) \<le> n \<and> \<not> aborted sg")
        case True
        with False show ?thesis by auto
      next
        case F: False
        with na have "\<exists>c. r' = Finished c"
          by (auto simp: next_attempt_def split: sum.splits if_splits)
        with OnTask show ?thesis by auto
      qed
    qed
  qed
next
  case (OnBackoff a e ms cl)
  with assms have na: "next_attempt n2s t k n sg (a + 1) e = (r', k')"
    by (auto split: if_splits)
  show ?thesis
  proof (cases "int (a + 1) \<le> n \<and> \<not> aborted sg")
    case True
    with na have "r' = OnTask (a + 1) e (t k)" by (auto simp: next_attempt_def)
    with True OnBackoff show ?thesis by auto
  next
    case False
    with na have "\<exists>c. r' = Finished c"
      by (auto simp: next_attempt_def split: sum.splits if_splits)
    with OnBackoff show ?thesis by auto
  qed
next
  case (Finished c)
  with assms show ?thesis by simp
qed

lemma sum_list_update_less:
  assumes "c < length xs" "f y < f (xs ! c)"
  shows "sum_list (map f (xs[c := y])) < (sum_list (map f xs) :: nat)"
proof -
  have a: "xs[c := y] = take c xs @ y # drop (Suc c) xs"
    using assms(1) by (simp add: upd_conv_take_nth_drop)
  have b: "xs = take c xs @ xs ! c # drop (Suc c) xs"
    using assms(1) by (simp add: id_take_nth_drop)
  have "sum_list (map f xs) = sum_list (map f (take c xs)) + f (xs ! c) + sum_list (map f (drop (Suc c) xs))"
    by (subst b) simp
  moreover have "sum_list (map f (xs[c := y])) = sum_list (map f (take c xs)) + f y + sum_list (map f (drop (Suc c) xs))"
    by (subst a) simp
  ultimately show ?thesis using assms(2) by simp
qed

lemma sum_list_remove:
  assumes "c < length xs"
  shows "sum_list (map f (take c xs @ drop (Suc c) xs)) + f (xs ! c) = (sum_list (map f xs) :: nat)"
proof -
  have b: "xs = take c xs @ xs ! c # drop (Suc c) xs"
    using assms(1) by (simp add: id_take_nth_drop)
  have "sum_list (map f xs) = sum_list (map f (take c xs)) + f (xs ! c) + sum_list (map f (drop (Suc c) xs))"
    by (subst b) simp
  then show ?thesis by simp
qed

lemma fuel_checkCompletion: "fuel (checkCompletion q) = fuel q"
  by (simp add: fuel_def checkCompletion_def resolveQueue_def Let_def split: option.splits)

lemma fuel_processNext: "fuel (processNext n2s q) \<le> fuel q"
proof (cases "nextTaskIndex q \<ge> length (tasks q) \<or> aborted (abortController q)")
  case True
  then show ?thesis by (simp add: processNext_def fuel_checkCompletion)
next
  case False
  let ?R = "nat (retryAttempts q)"
  let ?i = "nextTaskIndex q"
  obtain r n where rn: "runTaskWithRetry n2s (tasks q ! ?i) (calls q ! ?i) (retryAttempts q) (abortController q) = (r, n)"
    by fastforce
  have "remaining ?R r \<le> 2 * ?R + 3"
    using remaining_next_attempt [of "retryAttempts q" n2s "tasks q ! ?i" "calls q ! ?i" "abortController q" 0 "Value JNull"] rn
    by (simp add: runTaskWithRetry_def)
  moreover have "?i < length (tasks q)" using False by simp
  then have "length (tasks q) - ?i = Suc (length (tasks q) - Suc ?i)" by (simp add: Suc_diff_Suc)
  ultimately show ?thesis
    using False rn by (simp add: processNext_def Let_def fuel_def)
qed

lemma fuel_resume:
  assumes "resume n2s c q = Some q'"
  shows "fuel q' < fuel q"
  using assms
proof (cases rule: resume_cases)
  case (settled i cm)
  let ?f = "\<lambda>(i, r). remaining (nat (retryAttempts q)) r"
  let ?q2 = "q\<lparr> chains := take c (chains q) @ drop (Suc c) (chains q),
                      results := (results q)[i := Some (record_of n2s cm)],
                      runningCount := runningCount q - 1,
                      finishedCount := finishedCount q + 1 \<rparr>"
  from sum_list_remove [OF settled(1), of ?f] settled(2)
  have "fuel ?q2 + 1 = fuel q" by (simp add: fuel_def)
  with fuel_processNext [of n2s ?q2] show ?thesis unfolding settled(3) by simp
next
  case (resumed i r r' n)
  let ?f = "\<lambda>(i, r). remaining (nat (retryAttempts q)) r"
  from remaining_resume_retry [OF resumed(3)] resumed(2)
  have "?f (i, r') < ?f (chains q ! c)" by simp
  from sum_list_update_less [OF resumed(1), of ?f, OF this]
  show ?thesis unfolding resumed(4) by (simp add: fuel_def)
qed

lemma abortController_checkCompletion: "abortController (checkCompletion q) = abortController q"
  by (simp add: checkCompletion_def resolveQueue_def Let_def split: option.splits)

lemma abortController_processNext: "abortController (processNext n2s q) = abortController q"
  by (simp add: processNext_def Let_def abortController_checkCompletion split: prod.splits)

lemma abortController_resume:
  assumes "resume n2s c q = Some q'"
  shows "abortController q' = abortController q"
  using assms
proof (cases rule: resume_cases)
  case (settled i cm)
  then show ?thesis by (simp add: abortController_processNext)
next
  case (resumed i r r' n)
  then show ?thesis by simp
qed

lemma can_resume:
  assumes I: "run_inv n2s q" and nab: "\<not> aborted (abortController q)" and c: "c < length (chains q)"
  shows "\<exists>q'. resume n2s c q = Some q'"
proof -
  obtain i r where ch: "chains q ! c = (i, r)" by fastforce
  then have "(i, r) \<in> set (chains q)" using c by (metis nth_mem)
  with I nab have ok: "retry_ok n2s (tasks q ! i) (retryAttempts q) False (calls q ! i) r"
    by (fastforce simp: run_inv_def inv_chains_def)
  show ?thesis
  proof (cases r)
    case (OnTask a e s)
    have "\<exists>x. resume_retry n2s (tasks q ! i) (calls q ! i) (retryAttempts q) (abortController q) r = Some x"
      unfolding OnTask by (cases s) auto
    with OnTask c ch show ?thesis by (auto simp: resume_def)
  next
    case (OnBackoff a e ms cl)
    with ok have "\<not> cl" by simp
    with OnBackoff have "\<exists>x. resume_retry n2s (tasks q ! i) (calls q ! i) (retryAttempts q) (abortController q) r = Some x"
      by auto
    with OnBackoff c ch show ?thesis by (auto simp: resume_def)
  next
    case (Finished cm)
    with c ch show ?thesis by (auto simp: resume_def)
  qed
qed


lemma live_processNext:
  assumes "run_inv n2s q"
  shows "live (processNext n2s q)"
proof (cases "nextTaskIndex q \<ge> length (tasks q) \<or> aborted (abortController q)")
  case False
  then show ?thesis by (simp add: processNext_def Let_def live_def split: prod.splits)
next
  case True
  show ?thesis
  proof (cases "runningCount q = 0")
    case z: True
    with True show ?thesis
      by (simp add: processNext_def checkCompletion_def resolveQueue_def Let_def live_def
          split: option.splits)
  next
    case False
    with assms have "chains q \<noteq> []" by (auto simp: run_inv_def inv_shape_def)
    with True show ?thesis by (simp add: processNext_def chains_checkCompletion live_def)
  qed
qed

lemma live_resume:
  assumes I: "run_inv n2s q" and r: "resume n2s c q = Some q'"
  shows "live q'"
  using r
proof (cases rule: resume_cases)
  case (settled i cm)
  from I have d: "distinct (map fst (chains q))" by (simp add: run_inv_def inv_shape_def)
  have mem: "(i, Finished cm) \<in> set (chains q)" using settled(1,2) by (metis nth_mem)
  have len: "int (length (take c (chains q) @ drop (Suc c) (chains q))) = int (length (chains q)) - 1"
    using settled(1) by auto
  show ?thesis
    unfolding settled(3)
    by (intro live_processNext inv_written [OF I mem removed_set [OF d settled(1,2)]
          removed_distinct [OF d] len])
next
  case (resumed i r r' n)
  then show ?thesis by (auto simp: live_def)
qed

lemma resumes_only_exec:
  assumes "resumes_only evs" and "exec n2s evs q = Some q'" and "run_inv n2s q"
  shows "length evs + fuel q' \<le> fuel q \<and> abortController q' = abortController q
         \<and> run_inv n2s q' \<and> same_run q q' \<and> (evs \<noteq> [] \<or> live q \<longrightarrow> live q')"
  using assms
proof (induction evs arbitrary: q rule: resumes_only.induct)
  case 1
  then show ?case by (simp add: same_run_refl)
next
  case (2 c es)
  from "2.prems"(2) obtain q1 where s: "resume n2s c q = Some q1" and e: "exec n2s es q1 = Some q'"
    by (auto split: option.splits)
  note I1 = inv_resume [OF "2.prems"(3) s]
  note L1 = live_resume [OF "2.prems"(3) s]
  from "2.IH" [OF _ e I1] "2.prems"(1) L1
  have "length es + fuel q' \<le> fuel q1" "abortController q' = abortController q1"
    "run_inv n2s q'" "same_run q1 q'" "live q'"
    by auto
  with fuel_resume [OF s] abortController_resume [OF s] same_run_resume [OF s]
  show ?case using same_run_trans by auto
next
  case (3 es)
  then show ?case by simp
qed

lemma terminal_resolved:
  assumes "run_inv n2s q" and "live q" and "\<not> aborted (abortController q)"
    and "\<forall>c. resume n2s c q = None"
  shows "promise q = Some (results q)"
proof -
  have "chains q = []"
  proof (rule ccontr)
    assume "chains q \<noteq> []"
    then have "0 < length (chains q)" by simp
    from can_resume [OF assms(1,3) this] assms(4) show False by simp
  qed
  with assms(2) obtain v where "promise q = Some v" by (auto simp: live_def)
  with assms(1) show ?thesis by (auto simp: run_inv_def inv_promise_def)
qed

lemma can_complete:
  assumes "run_inv n2s q" and "live q" and "\<not> aborted (abortController q)"
  shows "\<exists>evs q'. resumes_only evs \<and> exec n2s evs q = Some q' \<and> (\<forall>c. resume n2s c q' = None)"
  using assms
proof (induction "fuel q" arbitrary: q rule: less_induct)
  case less
  show ?case
  proof (cases "chains q = []")
    case True
    then have "\<forall>c. resume n2s c q = None" by (simp add: resume_def)
    moreover have "resumes_only []" "exec n2s [] q = Some q" by simp_all
    ultimately show ?thesis by blast
  next
    case False
    then have "0 < length (chains q)" by simp
    from can_resume [OF less.prems(1,3) this] obtain q1 where s: "resume n2s 0 q = Some q1" by blast
    have "\<not> aborted (abortController q1)"
      using abortController_resume [OF s] less.prems(3) by simp
    from less.hyps [OF fuel_resume [OF s] inv_resume [OF less.prems(1) s]
        live_resume [OF less.prems(1) s] this]
    obtain evs q' where "resumes_only evs" "exec n2s evs q1 = Some q'" "\<forall>c. resume n2s c q' = None"
      by blast
    with s have "resumes_only (Resume 0 # evs)" "exec n2s (Resume 0 # evs) q = Some q'"
      by simp_all
    with \<open>\<forall>c. resume n2s c q' = None\<close> show ?thesis by blast
  qed
qed

lemma run_live:
  assumes "1 \<le> maxAtSameTime q" and "run n2s q (Array ts) = Inr w0"
  shows "live w0"
proof (cases "ts = []")
  case True
  with run_start(8) [OF assms(2)] show ?thesis by (simp add: live_def)
next
  case False
  then have "0 < length ts" by simp
  with assms(1) have "0 < nat (min (maxAtSameTime q) (int (length ts)))" by simp
  with run_start(5) [OF assms(2)] have "chains w0 \<noteq> []" by (metis length_greater_0_conv)
  then show ?thesis by (simp add: live_def)
qed

lemma exec_live:
  assumes "run_inv n2s q" and "live q" and "exec n2s evs q = Some q'"
  shows "live q'"
  using assms
proof (induction evs arbitrary: q)
  case Nil
  then show ?case by simp
next
  case (Cons e evs)
  from Cons.prems(3) obtain q1 where s: "step n2s e q = Some q1" and x: "exec n2s evs q1 = Some q'"
    by (auto split: option.splits)
  from step_preserves [OF s] Cons.prems(1) have I1: "run_inv n2s q1" by simp
  have "live q1"
  proof (cases e)
    case (Resume c)
    with s live_resume [OF Cons.prems(1)] show ?thesis by simp
  next
    case CancelAll
    with s Cons.prems(2) show ?thesis
      by (auto simp: live_def cancelAll_def split: option.splits if_splits)
  qed
  from Cons.IH [OF I1 this x] show ?case .
qed

text \<open>
  Total correctness of a run without cancellation: a schedule that can go no
  further exists, no schedule is longer than \<open>fuel\<close>, and one that can go no further
  has delivered every record.
\<close>

lemma run_completes:
  assumes "1 \<le> maxAtSameTime q"
    and "run n2s q (Array ts) = Inr w0" and "exec n2s evs w0 = Some w"
    and "\<not> aborted (abortController w)"
  shows "\<exists>evs' w'. resumes_only evs' \<and> exec n2s evs' w = Some w' \<and> (\<forall>c. resume n2s c w' = None)"
    and "resumes_only evs' \<Longrightarrow> exec n2s evs' w = Some w' \<Longrightarrow> length evs' \<le> fuel w"
    and "resumes_only evs' \<Longrightarrow> exec n2s evs' w = Some w' \<Longrightarrow> \<forall>c. resume n2s c w' = None \<Longrightarrow>
           i < length ts \<Longrightarrow>
           promise w' = Some (results w')
           \<and> (\<exists>res. results w' ! i = Some res
                 \<and> task_outcome n2s (ts ! i) (retryAttempts q) False (calls w' ! i) res)"
proof -
  note r = run_reach [OF assms(2,3)]
  have L: "live w"
    using exec_live [OF run_start(1) [OF assms(2)] run_live [OF assms(1,2)] assms(3)] .
  from can_complete [OF r(1) L assms(4)]
  show "\<exists>evs' w'. resumes_only evs' \<and> exec n2s evs' w = Some w' \<and> (\<forall>c. resume n2s c w' = None)" .
  { assume a: "resumes_only evs'" "exec n2s evs' w = Some w'"
    note x = resumes_only_exec [OF a r(1)]
    from x show "length evs' \<le> fuel w" by simp
    assume t: "\<forall>c. resume n2s c w' = None" and i: "i < length ts"
    from x L have I': "run_inv n2s w'" and L': "live w'" and ab: "\<not> aborted (abortController w')"
      and sr: "same_run w w'"
      using assms(4) by auto
    from terminal_resolved [OF I' L' ab t] have p: "promise w' = Some (results w')" .
    from sr r(2,3) have f: "tasks w' = ts" "retryAttempts w' = retryAttempts q"
      by (simp_all add: same_run_def)
    with i have i': "i < length (tasks w')" by simp
    have "i < nextTaskIndex w'"
    proof (rule ccontr)
      assume "\<not> i < nextTaskIndex w'"
      then have "nextTaskIndex w' \<le> i" by simp
      from delivered(5) [OF I' p i' this] ab show False by simp
    qed
    from delivered(4) [OF I' p i' this] ab f p
    show "promise w' = Some (results w')
           \<and> (\<exists>res. results w' ! i = Some res
                 \<and> task_outcome n2s (ts ! i) (retryAttempts q) False (calls w' ! i) res)"
      by simp }
qed


lemma singleton_list: "length xs = 1 \<Longrightarrow> xs ! 0 = a \<Longrightarrow> xs = [a]"
  by (cases xs) auto



text \<open>Evaluation of the example runs.\<close>

lemma constructor_new_queue:
  "1 \<le> c \<Longrightarrow> AsyncQueue_constructor s2n (JNum (Finite (of_int c))) (Some r) = Inr (new_queue c r)"
  by (simp add: AsyncQueue_constructor_def new_queue_def)

lemmas eval_defs = run_events_def run_def processNext_def runTaskWithRetry_def next_attempt_def
  aborted_def resume_def settled_def record_of_def toError_def checkCompletion_def
  resolveQueue_def cancelAll_def cancelErr_def always_rejects_def always_fulfils_def
  fails_first_def new_queue_def Let_def rejects_unprintable_def String_TypeError_def

section \<open>The claims\<close>

subsection \<open>C1: results in input order\<close>



subsection \<open>C2: the concurrency ceiling\<close>

text \<open>
  Claim C2. For a queue of concurrency \<open>C \<ge> 1\<close>, \<open>run\<close> starts \<open>min C (length ts)\<close>
  activations, and in every state of the run the indices claimed but not yet
  written are exactly those held by the suspended activations, one index each and
  no index twice; their number is \<open>runningCount\<close> and never exceeds \<open>C\<close>. Inside one
  event the counter goes down by one and then up by at most one
  (\<open>settled\<close>, \<open>runningCount_processNext\<close>), and inside \<open>run\<close> up by one for each
  activation started (\<open>batch\<close>), so it stays below the bound there as well.
\<close>

theorem concurrency_ceiling:
  assumes "1 \<le> maxAtSameTime q"
    and "run n2s q (Array ts) = Inr w0" and "exec n2s evs w0 = Some w"
  shows "length (chains w0) = min (nat (maxAtSameTime q)) (length ts)
       \<and> card {i. i < nextTaskIndex w \<and> results w ! i = None} = length (chains w)
       \<and> runningCount w = int (length (chains w))
       \<and> runningCount w \<le> maxAtSameTime q
       \<and> distinct (map fst (chains w))"
proof -
  note r = run_reach [OF assms(2,3)]
  from r(1) have d: "distinct (map fst (chains w))" and rc: "runningCount w = int (length (chains w))"
    by (auto simp: run_inv_def inv_shape_def)
  have "card (fst ` set (chains w)) = length (chains w)"
    using d by (metis distinct_card length_map list.set_map)
  then have c: "card {i. i < nextTaskIndex w \<and> results w ! i = None} = length (chains w)"
    using in_flight [OF r(1)] by simp
  have s: "length (chains w0) = min (nat (maxAtSameTime q)) (length ts)"
    using run_start(5) [OF assms(2)] assms(1) by arith
  from r(5) assms(1) have "int (length (chains w)) \<le> maxAtSameTime q" by simp
  with d rc c s show ?thesis by simp
qed

text \<open>Three tasks at concurrency 2, after the first has been written.\<close>

theorem concurrency_ceiling_witness:
  "1 \<le> maxAtSameTime (new_queue 2 3)
   \<and> (\<exists>w0 w. run print_nothing (new_queue 2 3)
          (Array [always_fulfils (JStr ''a''), always_fulfils (JStr ''b''), always_fulfils (JStr ''c'')]) = Inr w0
        \<and> exec print_nothing [Resume 0, Resume 0] w0 = Some w
        \<and> length (chains w0) = 2 \<and> runningCount w = 2
        \<and> card {i. i < nextTaskIndex w \<and> results w ! i = None} = 2
        \<and> runningCount w \<le> maxAtSameTime (new_queue 2 3))"
proof -
  let ?ts = "[always_fulfils (JStr ''a''), always_fulfils (JStr ''b''), always_fulfils (JStr ''c'')]"
  have m: "1 \<le> maxAtSameTime (new_queue 2 3)" by (simp add: new_queue_def)
  have "\<exists>w0 w. run print_nothing (new_queue 2 3) (Array ?ts) = Inr w0
     \<and> exec print_nothing [Resume 0, Resume 0] w0 = Some w \<and> length (chains w) = 2"
    by (simp add: eval_defs numeral_2_eq_2)
  then obtain w0 w where r: "run print_nothing (new_queue 2 3) (Array ?ts) = Inr w0"
    and e: "exec print_nothing [Resume 0, Resume 0] w0 = Some w" and l: "length (chains w) = 2"
    by blast
  from concurrency_ceiling [OF m r e] l
  have "length (chains w0) = 2 \<and> runningCount w = 2
        \<and> card {i. i < nextTaskIndex w \<and> results w ! i = None} = 2
        \<and> runningCount w \<le> maxAtSameTime (new_queue 2 3)"
    by (simp add: new_queue_def)
  with m r e show ?thesis by blast
qed

subsection \<open>C3: success after retries\<close>

text \<open>
  Claim C3. Take a task that fails on its first \<open>K\<close> invocations and fulfils with \<open>v\<close>
  on the next, with \<open>K\<close> below the retry budget, in a run not cancelled so far.
  Whenever its slot is written it holds \<open>Success v\<close>, the task has been invoked
  exactly \<open>K + 1\<close> times and no attempt or backoff wait of it is pending. And the
  slot does get written: every schedule without cancellation has at most \<open>fuel\<close>
  events, one that can go no further has resolved the promise of \<open>run\<close> with
  \<open>Success v\<close> in the slot after exactly \<open>K + 1\<close> invocations, and such a schedule
  exists.
\<close>

theorem retry_then_success:
  assumes "1 \<le> maxAtSameTime q"
    and "run n2s q (Array ts) = Inr w0" and "exec n2s evs w0 = Some w"
    and "\<not> aborted (abortController w)"
    and "i < length ts" and "rejects_upto (ts ! i) K" and "(ts ! i) K = Fulfils v"
    and "int K < retryAttempts q"
  shows "(\<forall>res. results w ! i = Some res \<longrightarrow>
            res = Success v \<and> calls w ! i = Suc K \<and> i \<notin> fst ` set (chains w))
       \<and> (\<forall>evs' w'. resumes_only evs' \<and> exec n2s evs' w = Some w' \<longrightarrow>
            length evs' \<le> fuel w
            \<and> ((\<forall>c. resume n2s c w' = None) \<longrightarrow>
                 promise w' = Some (results w') \<and> results w' ! i = Some (Success v)
                 \<and> calls w' ! i = Suc K))
       \<and> (\<exists>evs' w'. resumes_only evs' \<and> exec n2s evs' w = Some w' \<and> (\<forall>c. resume n2s c w' = None))"
proof (intro conjI allI impI)
  note r = run_reach [OF assms(2,3)]
  note c = run_completes [OF assms(1-4)]
  show "\<exists>evs' w'. resumes_only evs' \<and> exec n2s evs' w = Some w' \<and> (\<forall>c. resume n2s c w' = None)"
    by (rule c(1))
  { fix res assume s: "results w ! i = Some res"
    from written [OF r(1) _ s] assms(4,5) r(2,3)
    have "task_outcome n2s (ts ! i) (retryAttempts q) False (calls w ! i) res" by auto
    from outcome_success [OF this assms(6,7,8)]
    show "res = Success v" and "calls w ! i = Suc K" by simp_all
    show "i \<notin> fst ` set (chains w)" using in_flight [OF r(1)] s by simp }
  { fix evs' w' assume a: "resumes_only evs' \<and> exec n2s evs' w = Some w'"
    then show "length evs' \<le> fuel w" using c(2) by blast
    assume t: "\<forall>c. resume n2s c w' = None"
    from c(3) [of evs' w' i] a t assms(5) obtain res where p: "promise w' = Some (results w')"
      and s: "results w' ! i = Some res"
      and o: "task_outcome n2s (ts ! i) (retryAttempts q) False (calls w' ! i) res"
      by blast
    from outcome_success [OF o assms(6,7,8)] s p
    show "promise w' = Some (results w')" and "results w' ! i = Some (Success v)"
      and "calls w' ! i = Suc K"
      by simp_all }
qed

text \<open>
  Two failures, then \<open>'ok'\<close>, with three retries: the promise resolves with the
  success record after three invocations.
\<close>

theorem retry_then_success_witness:
  "1 \<le> maxAtSameTime (new_queue 1 3)
   \<and> (\<exists>w0 w'. run print_nothing (new_queue 1 3)
                 (Array [fails_first 2 (JError ''fail'') (JStr ''ok'')]) = Inr w0
        \<and> exec print_nothing [] w0 = Some w0
        \<and> \<not> aborted (abortController w0)
        \<and> rejects_upto (fails_first 2 (JError ''fail'') (JStr ''ok'')) 2
        \<and> fails_first 2 (JError ''fail'') (JStr ''ok'') 2 = Fulfils (JStr ''ok'')
        \<and> int 2 < retryAttempts (new_queue 1 3)
        \<and> resumes_only [Resume 0, Resume 0, Resume 0, Resume 0, Resume 0, Resume 0]
        \<and> exec print_nothing [Resume 0, Resume 0, Resume 0, Resume 0, Resume 0, Resume 0] w0 = Some w'
        \<and> length [Resume 0, Resume 0, Resume 0, Resume 0, Resume 0, Resume 0] \<le> fuel w0
        \<and> promise w' = Some [Some (Success (JStr ''ok''))]
        \<and> calls w' ! 0 = 3)"
proof -
  let ?t = "fails_first 2 (JError ''fail'') (JStr ''ok'')"
  let ?evs = "[Resume 0, Resume 0, Resume 0, Resume 0, Resume 0, Resume 0]"
  have m: "1 \<le> maxAtSameTime (new_queue 1 3)" by (simp add: new_queue_def)
  have "\<exists>w0 w'. run print_nothing (new_queue 1 3) (Array [?t]) = Inr w0
     \<and> exec print_nothing ?evs w0 = Some w'
     \<and> abortController w0 = Some False \<and> chains w' = [] \<and> length (results w') = 1"
    by (simp add: eval_defs)
  then obtain w0 w' where r: "run print_nothing (new_queue 1 3) (Array [?t]) = Inr w0"
    and e': "exec print_nothing ?evs w0 = Some w'"
    and a: "\<not> aborted (abortController w0)" and c: "chains w' = []"
    and l: "length (results w') = 1"
    by (auto simp: aborted_def)
  have e: "exec print_nothing [] w0 = Some w0" by simp
  have h1: "rejects_upto ([?t] ! 0) 2" by (simp add: numeral_2_eq_2 fails_first_def)
  have h2: "([?t] ! 0) 2 = Fulfils (JStr ''ok'')" by (simp add: fails_first_def)
  have h3: "int 2 < retryAttempts (new_queue 1 3)" by (simp add: new_queue_def)
  have ro: "resumes_only ?evs" by simp
  have t: "\<forall>c. resume print_nothing c w' = None" using c by (simp add: resume_def)
  have i: "0 < length [?t]" by simp
  have "\<forall>evs' w'. resumes_only evs' \<and> exec print_nothing evs' w0 = Some w' \<longrightarrow>
            length evs' \<le> fuel w0
            \<and> ((\<forall>c. resume print_nothing c w' = None) \<longrightarrow>
                 promise w' = Some (results w') \<and> results w' ! 0 = Some (Success (JStr ''ok''))
                 \<and> calls w' ! 0 = Suc 2)"
    using retry_then_success [OF m r e a i h1 h2 h3] by blast
  with ro e' t
  have x: "length ?evs \<le> fuel w0" "promise w' = Some (results w')"
    "results w' ! 0 = Some (Success (JStr ''ok''))" "calls w' ! 0 = 3"
    by (blast, blast, blast, fastforce)
  from singleton_list [OF l x(3)] x(2) have "promise w' = Some [Some (Success (JStr ''ok''))]"
    by simp
  with m r e a h1 h2 h3 ro e' x show ?thesis by auto
qed

subsection \<open>C4: exhaustion of the retries\<close>




subsection \<open>C5: cancellation during the backoff wait\<close>

text \<open>
  Claim C5 says that a backoff wait interrupted by cancellation ends early and
  that the task then gets the cancelled outcome. In the source the abort listener
  only clears the timer; nothing resolves the backoff promise. One task that
  always rejects, its first attempt fails, \<open>cancelAll\<close> during the wait: the
  activation can never resume, the slot stays null, \<open>runningCount\<close> stays 1 and the
  promise of \<open>run\<close> stays pending, with no event left that changes the state.
  Lemma \<open>cancel_during_backoff_never_resolves\<close> shows the same of every run.
\<close>

theorem cancel_during_backoff_hangs:
  "\<exists>w. run_events print_nothing (new_queue 1 3) [always_rejects (JError ''boom'')]
           [Resume 0, CancelAll] = Some w
       \<and> chains w = [(0, OnBackoff 0 (Value (JError ''boom'')) 100 True)]
       \<and> runningCount w = 1 \<and> results w = [None] \<and> promise w = None
       \<and> (\<forall>c. resume print_nothing c w = None) \<and> cancelAll w = w"
proof -
  have "\<exists>w. run_events print_nothing (new_queue 1 3) [always_rejects (JError ''boom'')]
           [Resume 0, CancelAll] = Some w
       \<and> chains w = [(0, OnBackoff 0 (Value (JError ''boom'')) 100 True)]
       \<and> runningCount w = 1 \<and> results w = [None] \<and> promise w = None
       \<and> abortController w = Some True"
    by (simp add: eval_defs)
  then obtain w where w: "run_events print_nothing (new_queue 1 3) [always_rejects (JError ''boom'')]
           [Resume 0, CancelAll] = Some w"
    and c: "chains w = [(0, OnBackoff 0 (Value (JError ''boom'')) 100 True)]"
    and r: "runningCount w = 1" "results w = [None]" "promise w = None"
    and a: "abortController w = Some True"
    by blast
  have 1: "\<forall>c. resume print_nothing c w = None" using c by (simp add: resume_def)
  have 2: "cancelAll w = w" using a by (simp add: cancelAll_def)
  from 1 2 w c r show ?thesis by blast
qed

subsection \<open>C6: validation of the concurrency\<close>

text \<open>
  Claim C6. The constructor throws (its one error) exactly when the concurrency
  argument is not a Number with an integer value of at least 1, and builds the
  queue exactly when it is one.
\<close>

theorem constructor_validation:
  "(AsyncQueue_constructor s2n m r = Inl (JError ''Concurrency must be a positive whole number''))
     = (\<not> (\<exists>k::int. 1 \<le> k \<and> m = JNum (Finite (of_int k))))
   \<and> (\<exists>q. AsyncQueue_constructor s2n m r = Inr q) = (\<exists>k::int. 1 \<le> k \<and> m = JNum (Finite (of_int k)))"
proof -
  have "(less_num (ToNumber s2n m) (Finite 1) \<or> \<not> Number_isInteger m)
          = (\<not> (\<exists>k::int. 1 \<le> k \<and> m = JNum (Finite (of_int k))))"
  proof (cases m)
    case (JNum x)
    show ?thesis
    proof (cases x)
      case (Finite y)
      have "(\<exists>k::int. 1 \<le> k \<and> y = of_int k) = (\<not> y < 1 \<and> of_int \<lfloor>y\<rfloor> = y)"
      proof
        assume "\<exists>k::int. 1 \<le> k \<and> y = of_int k"
        then show "\<not> y < 1 \<and> of_int \<lfloor>y\<rfloor> = y" by auto
      next
        assume a: "\<not> y < 1 \<and> of_int \<lfloor>y\<rfloor> = y"
        then have "1 \<le> \<lfloor>y\<rfloor>" by linarith
        with a show "\<exists>k::int. 1 \<le> k \<and> y = of_int k" by (metis)
      qed
      with JNum Finite show ?thesis by auto
    qed (use JNum in auto)
  qed auto
  then show ?thesis by (auto simp: AsyncQueue_constructor_def)
qed

text \<open>0, a negative value, 5/2 and the string \<open>'2'\<close> are rejected; 2 is accepted.\<close>

theorem constructor_validation_witness:
  "AsyncQueue_constructor read_NaN (JNum (Finite 0)) None
     = Inl (JError ''Concurrency must be a positive whole number'')
   \<and> AsyncQueue_constructor read_NaN (JNum (Finite (- 2))) None
     = Inl (JError ''Concurrency must be a positive whole number'')
   \<and> AsyncQueue_constructor read_NaN (JNum (Finite (5 / 2))) None
     = Inl (JError ''Concurrency must be a positive whole number'')
   \<and> AsyncQueue_constructor read_NaN (JStr ''2'') None
     = Inl (JError ''Concurrency must be a positive whole number'')
   \<and> (\<exists>q. AsyncQueue_constructor read_NaN (JNum (Finite 2)) None = Inr q)"
proof -
  have 0: "\<not> (\<exists>k::int. 1 \<le> k \<and> JNum (Finite 0) = JNum (Finite (of_int k)))" by simp
  have 1: "\<not> (\<exists>k::int. 1 \<le> k \<and> JNum (Finite (- 2)) = JNum (Finite (of_int k)))"
  proof
    assume "\<exists>k::int. 1 \<le> k \<and> JNum (Finite (- 2)) = JNum (Finite (of_int k))"
    then obtain k :: int where "1 \<le> k" "(of_int k :: rat) = - 2" by auto
    then have "(of_int k :: rat) = of_int (- 2)" by simp
    then have "k = - 2" by (simp only: of_int_eq_iff)
    with \<open>1 \<le> k\<close> show False by simp
  qed
  have 2: "\<not> (\<exists>k::int. 1 \<le> k \<and> JNum (Finite (5 / 2)) = JNum (Finite (of_int k)))"
  proof
    assume "\<exists>k::int. 1 \<le> k \<and> JNum (Finite (5 / 2)) = JNum (Finite (of_int k))"
    then obtain k :: int where "(of_int k :: rat) = 5 / 2" by auto
    then have "(of_int (2 * k) :: rat) = of_int 5" by simp
    then have "2 * k = 5" by (simp only: of_int_eq_iff)
    then show False by presburger
  qed
  have 3: "\<not> (\<exists>k::int. 1 \<le> k \<and> JStr ''2'' = JNum (Finite (of_int k)))" by simp
  have 4: "\<exists>k::int. 1 \<le> k \<and> JNum (Finite 2) = JNum (Finite (of_int k))"
    by (rule exI [of _ 2]) simp
  from 0 1 2 3 4 show ?thesis
    using constructor_validation [of read_NaN "JNum (Finite 0)" None]
      constructor_validation [of read_NaN "JNum (Finite (- 2))" None]
      constructor_validation [of read_NaN "JNum (Finite (5 / 2))" None]
      constructor_validation [of read_NaN "JStr ''2''" None]
      constructor_validation [of read_NaN "JNum (Finite 2)" None]
    by blast
qed

subsection \<open>C7: the empty array\<close>

text \<open>
  Claim C7. \<open>run([])\<close> returns a promise already resolved with the empty array; no
  activation is started, no task function is invoked and no event can follow.
\<close>

theorem run_empty:
  "\<exists>w. run n2s q (Array []) = Inr w \<and> promise w = Some [] \<and> chains w = [] \<and> calls w = []
       \<and> (\<forall>c. resume n2s c w = None)"
  by (simp add: run_def resolveQueue_def resume_def)

theorem run_empty_witness:
  "\<exists>w. run print_nothing (new_queue 2 3) (Array []) = Inr w \<and> promise w = Some []
       \<and> chains w = [] \<and> calls w = []"
  using run_empty [of print_nothing "new_queue 2 3"] by blast

subsection \<open>C8: the cancellation records\<close>

text \<open>
  Claim C8, amended. In a resolved run, a task never claimed holds the captured
  \<open>Error('Task cancelled via cancelAll()')\<close>, and a task whose retry loop stopped with
  retries left after failures only (it observed the cancellation) holds the
  captured \<open>Error('Task cancelled')\<close>. Each of the two cases has its fixed message;
  the two messages differ.
\<close>

theorem cancellation_records:
  assumes "run n2s q (Array ts) = Inr w0" and "exec n2s evs w0 = Some w"
    and "promise w = Some rs" and "i < length ts"
  shows "(nextTaskIndex w \<le> i \<longrightarrow> rs ! i = Some (Captured (JError ''Task cancelled via cancelAll()'')))
       \<and> (0 < calls w ! i \<and> int (calls w ! i) \<le> retryAttempts q \<and> rejects_upto (ts ! i) (calls w ! i)
            \<longrightarrow> rs ! i = Some (Captured (JError ''Task cancelled'')))"
proof (intro conjI impI)
  note r = run_reach [OF assms(1,2)]
  from assms(4) r(2) have i: "i < length (tasks w)" by simp
  { assume "nextTaskIndex w \<le> i"
    from delivered(5) [OF r(1) assms(3) i this]
    show "rs ! i = Some (Captured (JError ''Task cancelled via cancelAll()''))"
      by (simp add: cancelErr_def) }
  { assume a: "0 < calls w ! i \<and> int (calls w ! i) \<le> retryAttempts q \<and> rejects_upto (ts ! i) (calls w ! i)"
    have "i < nextTaskIndex w"
    proof (rule ccontr)
      assume "\<not> i < nextTaskIndex w"
      then have "nextTaskIndex w \<le> i" by simp
      from delivered(5) [OF r(1) assms(3) i this] a show False by simp
    qed
    from delivered(4) [OF r(1) assms(3) i this] obtain res where res: "rs ! i = Some res"
      and t: "task_outcome n2s (ts ! i) (retryAttempts q) (aborted (abortController w)) (calls w ! i) res"
      using r(2,3) by auto
    let ?k = "calls w ! i"
    from a have "?k - 1 < ?k" by simp
    with a have "\<exists>e. (ts ! i) (?k - 1) = Rejects e" by (auto simp: rejects_upto_iff)
    with t a have "res = Captured (JError ''Task cancelled'')"
      by (auto simp: task_outcome_def split: if_splits)
    with res show "rs ! i = Some (Captured (JError ''Task cancelled''))" by simp }
qed

theorem cancellation_records_witness:
  "\<exists>w0 w. run print_nothing (new_queue 1 3)
             (Array [always_rejects (JError ''boom''), always_fulfils (JStr ''b'')]) = Inr w0
     \<and> exec print_nothing [CancelAll, Resume 0, Resume 0] w0 = Some w
     \<and> nextTaskIndex w \<le> 1
     \<and> 0 < calls w ! 0 \<and> int (calls w ! 0) \<le> retryAttempts (new_queue 1 3)
     \<and> rejects_upto (always_rejects (JError ''boom'')) (calls w ! 0)
     \<and> promise w = Some [Some (Captured (JError ''Task cancelled'')),
                          Some (Captured (JError ''Task cancelled via cancelAll()''))]"
proof -
  let ?ts = "[always_rejects (JError ''boom''), always_fulfils (JStr ''b'')]"
  have "\<exists>w0 w. run print_nothing (new_queue 1 3) (Array ?ts) = Inr w0
     \<and> exec print_nothing [CancelAll, Resume 0, Resume 0] w0 = Some w
     \<and> nextTaskIndex w = 1 \<and> calls w = [1, 0] \<and> (\<exists>a b. promise w = Some [a, b])"
    by (simp add: eval_defs)
  then obtain w0 w a b where r: "run print_nothing (new_queue 1 3) (Array ?ts) = Inr w0"
    and e: "exec print_nothing [CancelAll, Resume 0, Resume 0] w0 = Some w"
    and n: "nextTaskIndex w = 1" and c: "calls w = [1, 0]" and p: "promise w = Some [a, b]"
    by blast
  have h: "0 < calls w ! 0 \<and> int (calls w ! 0) \<le> retryAttempts (new_queue 1 3)
            \<and> rejects_upto (?ts ! 0) (calls w ! 0)"
    using c by (simp add: new_queue_def always_rejects_def)
  from cancellation_records [OF r e p, of 0] h
  have a: "a = Some (Captured (JError ''Task cancelled''))" by simp
  from cancellation_records [OF r e p, of 1] n
  have b: "b = Some (Captured (JError ''Task cancelled via cancelAll()''))" by simp
  from r e n h p a b show ?thesis by auto
qed

text \<open>
  The claim as stated, one message for both cases, fails: concurrency 1, a first
  task that rejects, \<open>cancelAll\<close> while its first attempt is in flight. The first
  slot ends with one message, the second slot with the other.
\<close>

theorem two_cancellation_messages:
  "map_option promise
     (run_events print_nothing (new_queue 1 3)
        [always_rejects (JError ''boom''), always_fulfils (JStr ''b'')]
        [CancelAll, Resume 0, Resume 0])
     = Some (Some [Some (Captured (JError ''Task cancelled'')),
                   Some (Captured (JError ''Task cancelled via cancelAll()''))])
   \<and> ''Task cancelled'' \<noteq> ''Task cancelled via cancelAll()''"
  by (simp add: eval_defs)

subsection \<open>C9: cancelAll before any run\<close>

text \<open>
  Claim C9. On a queue fresh from the constructor, or on any queue whose
  \<open>abortController\<close> is still null, \<open>cancelAll\<close> changes nothing, and a later \<open>run\<close>
  behaves as if it had not been called.
\<close>

theorem cancelAll_before_run:
  assumes "AsyncQueue_constructor s2n m r = Inr q \<or> abortController q = None"
  shows "cancelAll q = q \<and> run n2s (cancelAll q) arg = run n2s q arg"
proof -
  from assms have "abortController q = None"
    by (auto simp: AsyncQueue_constructor_def split: if_splits)
  then have "cancelAll q = q" by (simp add: cancelAll_def)
  then show ?thesis by simp
qed

theorem cancelAll_before_run_witness:
  "AsyncQueue_constructor read_NaN (JNum (Finite 2)) (Some 3) = Inr (new_queue 2 3)
   \<and> cancelAll (new_queue 2 3) = new_queue 2 3
   \<and> run print_nothing (cancelAll (new_queue 2 3)) (Array [always_fulfils (JStr ''a'')])
       = run print_nothing (new_queue 2 3) (Array [always_fulfils (JStr ''a'')])"
proof -
  have c: "AsyncQueue_constructor read_NaN (JNum (Finite 2)) (Some 3) = Inr (new_queue 2 3)"
    using constructor_new_queue [of 2 read_NaN 3] by simp
  then have "AsyncQueue_constructor read_NaN (JNum (Finite 2)) (Some 3) = Inr (new_queue 2 3)
      \<or> abortController (new_queue 2 3) = None" ..
  from cancelAll_before_run [OF this] c show ?thesis by simp
qed

subsection \<open>C10: a negative retryAttempts\<close>




end
